theory Spec2Isabelle
  imports Complex_Main "HOL-Library.Finite_Map" "HOL-Library.Multiset"
begin

section \<open>Scores, moves and pieces\<close>

text \<open>
  Search scores are Python numbers: the integers produced by \<open>evaluate\<close> and the two floats
  \<open>float('-inf')\<close> and \<open>float('inf')\<close> that open the root window and initialise
  \<open>best_eval\<close>. The only operations the program applies to them are comparison and unary
  minus, both exact on this domain.
\<close>

datatype score = NegInf | Fin int | PosInf

instantiation score :: linorder
begin

fun less_eq_score :: "score \<Rightarrow> score \<Rightarrow> bool" where
  "less_eq_score NegInf _ = True"
| "less_eq_score (Fin a) NegInf = False"
| "less_eq_score (Fin a) (Fin b) = (a \<le> b)"
| "less_eq_score (Fin a) PosInf = True"
| "less_eq_score PosInf PosInf = True"
| "less_eq_score PosInf _ = False"

definition less_score :: "score \<Rightarrow> score \<Rightarrow> bool" where
  "less_score a b = (a \<le> b \<and> \<not> b \<le> a)"

instance
proof
  fix x y z :: score
  show "(x < y) = (x \<le> y \<and> \<not> y \<le> x)"
    by (simp add: less_score_def)
  show "x \<le> x"
    by (cases x) simp_all
  show "x \<le> y \<Longrightarrow> y \<le> z \<Longrightarrow> x \<le> z"
    by (cases x; cases y; cases z) simp_all
  show "x \<le> y \<Longrightarrow> y \<le> x \<Longrightarrow> x = y"
    by (cases x; cases y) simp_all
  show "x \<le> y \<or> y \<le> x"
    by (cases x; cases y) auto
qed

end

instantiation score :: uminus
begin

fun uminus_score :: "score \<Rightarrow> score" where
  "uminus_score NegInf = PosInf"
| "uminus_score (Fin a) = Fin (- a)"
| "uminus_score PosInf = NegInf"

instance ..

end

text \<open>
  A \<open>chess.Move\<close>: origin square, destination square and optional promotion piece type.
  Squares are the integers 0..63 (\<open>square = rank * 8 + file\<close>); piece types are the integers
  1..6 (pawn, knight, bishop, rook, queen, king); a colour is a bool, \<open>True\<close> for white.
\<close>

record move =
  from_square :: int
  to_square :: int
  promotion :: "int option"

record piece =
  piece_type :: int
  color :: bool

text \<open>Python truthiness of \<open>move.promotion\<close> (\<open>None\<close> and \<open>0\<close> are falsy).\<close>

definition truthy :: "int option \<Rightarrow> bool" where
  "truthy v = (case v of None \<Rightarrow> False | Some k \<Rightarrow> k \<noteq> 0)"

section \<open>Outcomes of a call\<close>

text \<open>
  A call returns a value, raises (the only exception the modelled code can raise is
  \<open>IndexError\<close>, from a list index out of range or \<open>pop\<close> on an empty move stack), or, for
  the quiescence recursion that has no depth bound, runs out of the fuel the model gives it.
\<close>

datatype error = IndexError

datatype 'a outcome = Returns 'a | Raises error | OutOfFuel

definition obind :: "'a outcome \<Rightarrow> ('a \<Rightarrow> 'b outcome) \<Rightarrow> 'b outcome" where
  "obind x f = (case x of Returns v \<Rightarrow> f v | Raises e \<Rightarrow> Raises e | OutOfFuel \<Rightarrow> OutOfFuel)"

text \<open>
  Python list indexing \<open>xs[i]\<close>: a negative index counts from the end, an index out of
  range raises \<open>IndexError\<close>.
\<close>

definition index :: "'a list \<Rightarrow> int \<Rightarrow> 'a outcome" where
  "index xs i =
     (let n = int (length xs); j = (if i < 0 then n + i else i)
      in if 0 \<le> j \<and> j < n then Returns (xs ! nat j) else Raises IndexError)"

section \<open>The transposition table\<close>

text \<open>
  \<open>TranspositionTable\<close>: a dict from keys to tuples \<open>(depth, eval, flag, best_move)\<close> and the
  capacity \<open>size\<close>. Flags are the Python strings \<open>'EXACT'\<close>, \<open>'LOWER'\<close>, \<open>'UPPER'\<close>.
\<close>

type_synonym entry = "int \<times> score \<times> string \<times> move option"

record 'k transposition_table =
  table :: "('k, entry) fmap"
  tt_size :: int

definition len_table :: "'k transposition_table \<Rightarrow> int" where
  "len_table tt = int (fcard (fmdom (table tt)))"

definition store ::
  "'k transposition_table \<Rightarrow> 'k \<Rightarrow> int \<Rightarrow> score \<Rightarrow> string \<Rightarrow> move option \<Rightarrow> 'k transposition_table"
where
  "store tt key depth eval_score flag best_move =
     (let tt1 = (if len_table tt > tt_size tt then tt\<lparr>table := fmempty\<rparr> else tt)
      in tt1\<lparr>table := fmupd key (depth, eval_score, flag, best_move) (table tt1)\<rparr>)"

definition lookup ::
  "'k transposition_table \<Rightarrow> 'k \<Rightarrow> int \<Rightarrow> score \<Rightarrow> score \<Rightarrow> (move option \<times> score \<times> string) option"
where
  "lookup tt key depth alpha beta =
     (case fmlookup (table tt) key of
        None \<Rightarrow> None
      | Some (stored_depth, eval_score, flag, best_move) \<Rightarrow>
          if stored_depth \<ge> depth then
            if flag = ''EXACT'' then Some (best_move, eval_score, flag)
            else if flag = ''LOWER'' \<and> eval_score \<ge> beta then Some (best_move, eval_score, flag)
            else if flag = ''UPPER'' \<and> eval_score \<le> alpha then Some (best_move, eval_score, flag)
            else None
          else None)"

section \<open>The evaluator\<close>

text \<open>
  \<open>evaluate\<close> and its helpers read the board only through \<open>piece_map()\<close> and
  \<open>piece_at(square)\<close>, so they are modelled over the piece placement: the function from the
  squares 0..63 to the piece standing there, if any.
\<close>

type_synonym placement = "int \<Rightarrow> piece option"

definition passed_pawn_bonuses :: "int list" where
  "passed_pawn_bonuses = [0, 120, 80, 50, 30, 15, 15, 120]"

definition isolated_pawn_penalty :: "int list" where
  "isolated_pawn_penalty = [0, -10, -25, -50, -75, -75, -75, -75, -75]"

definition king_pawn_shield_scores :: "int list" where
  "king_pawn_shield_scores = [4, 7, 4, 3, 6, 3]"

text \<open>
  \<open>_is_passed_pawn\<close>: the nested loops return \<open>False\<close> at the first opposing pawn found on
  the same or an adjacent file ahead of the pawn, and \<open>True\<close> when there is none.
  \<open>range(rank_index + 1, 8)\<close> is \<open>[rank_index + 1..7]\<close> and
  \<open>range(rank_index - 1, -1, -1)\<close> is \<open>rev [0..rank_index - 1]\<close>.
\<close>

definition is_passed_pawn :: "placement \<Rightarrow> int \<Rightarrow> bool \<Rightarrow> bool" where
  "is_passed_pawn pa square is_white =
     (let file_index = square mod 8; rank_index = square div 8 in
      if is_white then
        \<not> list_ex (\<lambda>rank. list_ex (\<lambda>file. 0 \<le> file \<and> file < 8 \<and>
              (case pa (rank * 8 + file) of None \<Rightarrow> False
               | Some piece \<Rightarrow> piece_type piece = 1 \<and> \<not> color piece))
            [file_index - 1, file_index, file_index + 1]) [rank_index + 1..7]
      else
        \<not> list_ex (\<lambda>rank. list_ex (\<lambda>file. 0 \<le> file \<and> file < 8 \<and>
              (case pa (rank * 8 + file) of None \<Rightarrow> False
               | Some piece \<Rightarrow> piece_type piece = 1 \<and> color piece))
            [file_index - 1, file_index, file_index + 1]) (rev [0..rank_index - 1]))"

text \<open>\<open>_is_isolated_pawn\<close>: no pawn of the same colour on either adjacent file.\<close>

definition is_isolated_pawn :: "placement \<Rightarrow> int \<Rightarrow> bool \<Rightarrow> bool" where
  "is_isolated_pawn pa square is_white =
     (let file_index = square mod 8 in
      \<not> list_ex (\<lambda>file. 0 \<le> file \<and> file < 8 \<and>
            list_ex (\<lambda>rank. case pa (rank * 8 + file) of None \<Rightarrow> False
                             | Some piece \<Rightarrow> piece_type piece = 1 \<and> color piece = is_white)
              [0..7])
          [file_index - 1, file_index + 1])"

text \<open>
  \<open>_calculate_king_shield\<close>: the sum, over the files next to the king and the king's rank
  and the rank ahead of it, of the file's weight for every friendly pawn found there. The
  index \<open>min(5, file)\<close> lies in 0..5 because \<open>file\<close> starts at \<open>max(0, file_index - 1)\<close>.
\<close>

definition calculate_king_shield :: "placement \<Rightarrow> int \<Rightarrow> bool \<Rightarrow> int" where
  "calculate_king_shield pa square is_white =
     (let file_index = square mod 8; rank_index = square div 8 in
      if is_white then
        sum_list (map (\<lambda>file. sum_list (map (\<lambda>rank.
            (case pa (rank * 8 + file) of None \<Rightarrow> 0
             | Some piece \<Rightarrow> if piece_type piece = 1 \<and> color piece
                             then king_pawn_shield_scores ! nat (min 5 file) else 0))
          [rank_index..min 8 (rank_index + 2) - 1]))
          [max 0 (file_index - 1)..min 8 (file_index + 2) - 1])
      else
        sum_list (map (\<lambda>file. sum_list (map (\<lambda>rank.
            (case pa (rank * 8 + file) of None \<Rightarrow> 0
             | Some piece \<Rightarrow> if piece_type piece = 1 \<and> \<not> color piece
                             then king_pawn_shield_scores ! nat (min 5 file) else 0))
          [max 0 (rank_index - 1)..rank_index + 1 - 1]))
          [max 0 (file_index - 1)..min 8 (file_index + 2) - 1]))"

text \<open>
  \<open>board.piece_map()\<close>: the occupied squares with their pieces, enumerated from square 63
  down to square 0.
\<close>

definition piece_map :: "placement \<Rightarrow> (int \<times> piece) list" where
  "piece_map pa = List.map_filter (\<lambda>square. map_option (Pair square) (pa square)) (rev [0..63])"

text \<open>
  The value the loop body of \<open>evaluate\<close> assigns to \<open>value\<close> for one piece (the
  \<open>if/elif\<close> chain on the piece type). The index \<open>rank_index\<close> (or \<open>7 - rank_index\<close>) into
  \<open>passed_pawn_bonuses\<close> lies in 0..7 for every square of the board.
\<close>

definition piece_value :: "placement \<Rightarrow> int \<Rightarrow> piece \<Rightarrow> int" where
  "piece_value pa square piece =
     (let rank_index = square div 8 in
      if piece_type piece = 1 then
        (if color piece then
           (if is_passed_pawn pa square (color piece)
            then 1 + passed_pawn_bonuses ! nat rank_index else 1)
         else
           (if is_passed_pawn pa square (color piece)
            then 1 + passed_pawn_bonuses ! nat (7 - rank_index) else 1))
      else if piece_type piece = 2 then 3
      else if piece_type piece = 3 then 3
      else if piece_type piece = 4 then 5
      else if piece_type piece = 5 then 10
      else if piece_type piece = 6 then
        (if color piece then 0 + calculate_king_shield pa square True
         else 0 + calculate_king_shield pa square False)
      else 0)"

text \<open>
  One iteration of the loop over \<open>piece_map().items()\<close>, on the accumulators
  \<open>(eval_score, white_isolated_pawns, black_isolated_pawns)\<close>.
\<close>

definition evaluate_step :: "placement \<Rightarrow> int \<times> piece \<Rightarrow> int \<times> int \<times> int \<Rightarrow> int \<times> int \<times> int" where
  "evaluate_step pa item acc =
     (case item of (square, piece) \<Rightarrow>
      case acc of (eval_score, white_isolated_pawns, black_isolated_pawns) \<Rightarrow>
        let value = piece_value pa square piece;
            wi = (if piece_type piece = 1 \<and> color piece \<and> is_isolated_pawn pa square (color piece)
                  then white_isolated_pawns + 1 else white_isolated_pawns);
            bi = (if piece_type piece = 1 \<and> \<not> color piece \<and> is_isolated_pawn pa square (color piece)
                  then black_isolated_pawns + 1 else black_isolated_pawns)
        in (if color piece then eval_score + value else eval_score - value, wi, bi))"

text \<open>
  \<open>evaluate\<close>: the loop, then the two isolated-pawn penalties. The penalty table has nine
  entries, so a side with more than eight isolated pawns makes the index raise.
\<close>

definition evaluate :: "placement \<Rightarrow> int outcome" where
  "evaluate pa =
     (case fold (evaluate_step pa) (piece_map pa) (0, 0, 0) of
        (eval_score, white_isolated_pawns, black_isolated_pawns) \<Rightarrow>
          obind (index isolated_pawn_penalty white_isolated_pawns) (\<lambda>pw.
          obind (index isolated_pawn_penalty black_isolated_pawns) (\<lambda>pb.
            Returns (eval_score + pw - pb))))"

text \<open>
  The colour-flipped mirror image of a placement (python-chess \<open>Board.mirror()\<close>): ranks
  are reflected (\<open>square ^ 56\<close> on 0..63) and every piece changes colour.
\<close>

definition mirror_square :: "int \<Rightarrow> int" where
  "mirror_square square = (7 - square div 8) * 8 + square mod 8"

definition mirror_board :: "placement \<Rightarrow> placement" where
  "mirror_board pa = (\<lambda>square. map_option (\<lambda>piece. piece\<lparr>color := \<not> color piece\<rparr>) (pa (mirror_square square)))"

section \<open>The rules engine and the engine state\<close>

text \<open>
  python-chess is an external library. The functions of \<open>chess.Board\<close> that the st calls
  are parameters of the model: for a position of any type \<open>'p\<close>, the list
  \<open>board.legal_moves\<close>, the position after \<open>board.push(move)\<close>, \<open>board.is_capture(move)\<close>,
  \<open>board.piece_at(square)\<close>, \<open>board.is_game_over()\<close>, \<open>board.fen()\<close> and \<open>board.turn\<close>.
\<close>

record 'p rules =
  legal_moves :: "'p \<Rightarrow> move list"
  apply_move :: "'p \<Rightarrow> move \<Rightarrow> 'p"
  is_capture :: "'p \<Rightarrow> move \<Rightarrow> bool"
  piece_at :: "'p \<Rightarrow> int \<Rightarrow> piece option"
  is_game_over :: "'p \<Rightarrow> bool"
  fen :: "'p \<Rightarrow> string"
  turn :: "'p \<Rightarrow> bool"

text \<open>
  The mutable state of a \<open>ChessBot\<close> that the search reads and writes: the board (its
  current position and the stack of positions that \<open>pop\<close> restores), the 8x8 history table
  (indexed by rank and file of a square 0..63), the five killer-move slots and the
  transposition table. \<open>clock\<close> counts the calls of \<open>time.time()\<close> made so far: the n-th
  call returns \<open>now n\<close>, for a function \<open>now\<close> that the model takes as a parameter.
\<close>

record 'p chess_bot =
  board :: 'p
  move_stack :: "'p list"
  history_table :: "int \<Rightarrow> int \<Rightarrow> int"
  killer_moves :: "move option list"
  transposition_table :: "string transposition_table"
  clock :: nat

text \<open>\<open>board.push(move)\<close> and \<open>board.pop()\<close>; \<open>pop\<close> on an empty stack raises.\<close>

definition push :: "'p rules \<Rightarrow> move \<Rightarrow> 'p chess_bot \<Rightarrow> 'p chess_bot" where
  "push R m st =
     st\<lparr>board := apply_move R (board st) m, move_stack := board st # move_stack st\<rparr>"

definition pop :: "'p chess_bot \<Rightarrow> 'p chess_bot outcome" where
  "pop st =
     (case move_stack st of
        [] \<Rightarrow> Raises IndexError
      | p # ps \<Rightarrow> Returns (st\<lparr>board := p, move_stack := ps\<rparr>))"

definition generate_transposition_key :: "'p rules \<Rightarrow> 'p chess_bot \<Rightarrow> string" where
  "generate_transposition_key R st = fen R (board st)"

section \<open>Move ordering\<close>

text \<open>The table \<open>self.mvv_lva\<close>, read with \<open>.get(piece_type, 0)\<close>.\<close>

definition mvv_lva :: "int \<Rightarrow> int" where
  "mvv_lva t =
     (if t = 1 then 1 else if t = 2 then 3 else if t = 3 then 3 else if t = 4 then 5
      else if t = 5 then 9 else if t = 6 then 1000 else 0)"

definition score_move_mvv_lva :: "'p rules \<Rightarrow> 'p chess_bot \<Rightarrow> move \<Rightarrow> int" where
  "score_move_mvv_lva R st m =
     (let score = 0;
          score = (if is_capture R (board st) m then
                     (case (piece_at R (board st) (to_square m),
                            piece_at R (board st) (from_square m)) of
                        (Some victim, Some attacker) \<Rightarrow>
                          score + (1000 * mvv_lva (piece_type victim) - mvv_lva (piece_type attacker))
                      | _ \<Rightarrow> score + 1000)
                   else score);
          score = (if truthy (promotion m) then score + 800 else score)
      in score + history_table st (from_square m div 8) (from_square m mod 8))"

text \<open>
  The score the loop of \<open>order_moves\<close> gives one move. \<open>depth\<close> is the search depth of the
  calling node, a natural number (the search never calls \<open>order_moves\<close> with a negative one).
\<close>

definition order_score :: "'p rules \<Rightarrow> 'p chess_bot \<Rightarrow> nat \<Rightarrow> move \<Rightarrow> int" where
  "order_score R st depth m =
     (let tt_key = generate_transposition_key R st;
          tt_entry = fmlookup (table (transposition_table st)) tt_key;
          tt_best = (case tt_entry of None \<Rightarrow> None | Some (d, e, f, bm) \<Rightarrow> bm);
          score = 0;
          score = (if tt_best \<noteq> None \<and> Some m = tt_best then score + 1000000 else score);
          score = score + score_move_mvv_lva R st m;
          score = (if depth < length (killer_moves st) \<and> killer_moves st ! depth = Some m
                   then score + 500 else score)
      in score)"

text \<open>
  \<open>order_moves\<close>: \<open>scored.sort(key=lambda x: x[0], reverse=True)\<close> is a stable sort by
  descending score (Python keeps the original order of equal keys also under
  \<open>reverse=True\<close>), that is, a stable ascending sort by the negated score.
\<close>

definition order_moves :: "'p rules \<Rightarrow> 'p chess_bot \<Rightarrow> move list \<Rightarrow> nat \<Rightarrow> move list" where
  "order_moves R st moves depth =
     (let scored = map (\<lambda>m. (order_score R st depth m, m)) moves
      in map snd (sort_key (\<lambda>x. - fst x) scored))"

section \<open>Quiescence search\<close>

text \<open>
  The loop of \<open>quiescence\<close> over the sorted moves. \<open>rec\<close> stands for the recursive call
  \<open>self.quiescence\<close>. A quiet move is skipped (\<open>continue\<close>); otherwise the move is pushed,
  the recursive score negated, the move popped, and the window updated.
\<close>

fun quiescence_moves ::
  "(score \<Rightarrow> score \<Rightarrow> 'p chess_bot \<Rightarrow> (score \<times> 'p chess_bot) outcome) \<Rightarrow> 'p rules \<Rightarrow>
   move list \<Rightarrow> score \<Rightarrow> score \<Rightarrow> 'p chess_bot \<Rightarrow> (score \<times> 'p chess_bot) outcome"
where
  "quiescence_moves rec R [] alpha beta st = Returns (alpha, st)"
| "quiescence_moves rec R (m # ms) alpha beta st =
     (if \<not> is_capture R (board st) m \<and> \<not> truthy (promotion m)
      then quiescence_moves rec R ms alpha beta st
      else obind (rec (- beta) (- alpha) (push R m st)) (\<lambda>(s, st1).
           obind (pop st1) (\<lambda>st2.
             let score = - s in
             if score \<ge> beta then Returns (beta, st2)
             else quiescence_moves rec R ms (if score > alpha then score else alpha) beta st2)))"

definition quiescence_body ::
  "(score \<Rightarrow> score \<Rightarrow> 'p chess_bot \<Rightarrow> (score \<times> 'p chess_bot) outcome) \<Rightarrow> 'p rules \<Rightarrow>
   score \<Rightarrow> score \<Rightarrow> 'p chess_bot \<Rightarrow> (score \<times> 'p chess_bot) outcome"
where
  "quiescence_body rec R alpha beta st =
     obind (evaluate (piece_at R (board st))) (\<lambda>v.
       let stand_pat = Fin v in
       if stand_pat \<ge> beta then Returns (beta, st)
       else
         let alpha1 = (if alpha < stand_pat then stand_pat else alpha);
             moves = sort_key (\<lambda>m. - score_move_mvv_lva R st m) (legal_moves R (board st))
         in quiescence_moves rec R moves alpha1 beta st)"

text \<open>
  \<open>quiescence\<close> has no depth parameter: the model bounds the nesting of its recursive calls
  by \<open>fuel\<close> and answers \<open>OutOfFuel\<close> when the bound is reached.
\<close>

primrec quiescence ::
  "'p rules \<Rightarrow> nat \<Rightarrow> score \<Rightarrow> score \<Rightarrow> 'p chess_bot \<Rightarrow> (score \<times> 'p chess_bot) outcome"
where
  "quiescence R 0 = (\<lambda>alpha beta st. OutOfFuel)"
| "quiescence R (Suc fuel) = quiescence_body (quiescence R fuel) R"

section \<open>The search\<close>

text \<open>
  The time check \<open>start_time is not None and time_limit is not None and
  time.time() - start_time >= time_limit\<close>; the clock is read only when both are set.
\<close>

definition deadline_passed ::
  "(nat \<Rightarrow> real) \<Rightarrow> real option \<Rightarrow> real option \<Rightarrow> 'p chess_bot \<Rightarrow> bool \<times> 'p chess_bot"
where
  "deadline_passed now start_time time_limit st =
     (case (start_time, time_limit) of
        (Some s, Some l) \<Rightarrow> (now (clock st) - s \<ge> l, st\<lparr>clock := Suc (clock st)\<rparr>)
      | _ \<Rightarrow> (False, st))"

definition tt_store ::
  "string \<Rightarrow> int \<Rightarrow> score \<Rightarrow> string \<Rightarrow> move option \<Rightarrow> 'p chess_bot \<Rightarrow> 'p chess_bot"
where
  "tt_store key depth eval_score flag best_move st =
     st\<lparr>transposition_table := store (transposition_table st) key depth eval_score flag best_move\<rparr>"

text \<open>
  The state changes of the beta-cutoff branch: the killer move of this depth (when the
  depth has a slot), the \<open>LOWER\<close> entry, and the history count of the move's origin square.
\<close>

definition record_cutoff ::
  "nat \<Rightarrow> string \<Rightarrow> move \<Rightarrow> move option \<Rightarrow> score \<Rightarrow> 'p chess_bot \<Rightarrow> 'p chess_bot"
where
  "record_cutoff depth key m best_move best_eval st =
     (let st1 = (if depth < length (killer_moves st)
                 then st\<lparr>killer_moves := (killer_moves st)[depth := Some m]\<rparr>
                 else st);
          st2 = tt_store key (int depth) best_eval ''LOWER'' best_move st1;
          r = from_square m div 8;
          c = from_square m mod 8
      in st2\<lparr>history_table :=
               (history_table st2)(r := (history_table st2 r)(c := history_table st2 r c + 1))\<rparr>)"

text \<open>
  The loop \<open>for move in moves\<close> of \<open>search\<close>; \<open>child\<close> stands for the recursive call
  \<open>self.search(depth - 1, ...)\<close>. The result says whether the loop executed its
  \<open>return best_move, best_eval\<close> (the beta cutoff) or ended, by exhausting the moves or by
  \<open>break\<close>, and carries \<open>best_move\<close>, \<open>best_eval\<close> and the state.
\<close>

fun search_moves ::
  "(score \<Rightarrow> score \<Rightarrow> bool \<Rightarrow> 'p chess_bot \<Rightarrow> ((move option \<times> score option) \<times> 'p chess_bot) outcome) \<Rightarrow>
   'p rules \<Rightarrow> (nat \<Rightarrow> real) \<Rightarrow> nat \<Rightarrow> string \<Rightarrow> bool \<Rightarrow> real option \<Rightarrow> real option \<Rightarrow>
   move list \<Rightarrow> score \<Rightarrow> score \<Rightarrow> move option \<Rightarrow> score \<Rightarrow> 'p chess_bot \<Rightarrow>
   (bool \<times> move option \<times> score \<times> 'p chess_bot) outcome"
where
  "search_moves child R now depth key is_maximizing start_time time_limit []
     alpha beta best_move best_eval st = Returns (False, best_move, best_eval, st)"
| "search_moves child R now depth key is_maximizing start_time time_limit (m # ms)
     alpha beta best_move best_eval st =
     (case deadline_passed now start_time time_limit st of (expired, st0) \<Rightarrow>
      if expired then Returns (False, best_move, best_eval, st0)
      else
        obind (child (- beta) (- alpha) (\<not> is_maximizing) (push R m st0)) (\<lambda>((_, eval_opt), st1).
          case eval_opt of
            None \<Rightarrow> obind (pop st1) (\<lambda>st2. Returns (False, best_move, best_eval, st2))
          | Some e \<Rightarrow>
              let eval_score = - e in
              obind (pop st1) (\<lambda>st2.
                let best_move1 = (if eval_score > best_eval then Some m else best_move);
                    best_eval1 = (if eval_score > best_eval then eval_score else best_eval);
                    alpha1 = (if eval_score > alpha then eval_score else alpha)
                in
                  if alpha1 \<ge> beta then
                    Returns (True, best_move1, best_eval1,
                             record_cutoff depth key m best_move1 best_eval1 st2)
                  else search_moves child R now depth key is_maximizing start_time time_limit ms
                         alpha1 beta best_move1 best_eval1 st2)))"

text \<open>
  The body of \<open>search\<close>, with the recursive call as the parameter \<open>child\<close>. \<open>depth\<close> is a
  natural number: \<open>iterative_deepening\<close> starts at depth 1 and a node recurses with
  \<open>depth - 1\<close> only when \<open>depth\<close> is not 0.
\<close>

definition search_node ::
  "(score \<Rightarrow> score \<Rightarrow> bool \<Rightarrow> 'p chess_bot \<Rightarrow> ((move option \<times> score option) \<times> 'p chess_bot) outcome) \<Rightarrow>
   'p rules \<Rightarrow> (nat \<Rightarrow> real) \<Rightarrow> nat \<Rightarrow> nat \<Rightarrow> score \<Rightarrow> score \<Rightarrow> bool \<Rightarrow> real option \<Rightarrow> real option \<Rightarrow>
   'p chess_bot \<Rightarrow> ((move option \<times> score option) \<times> 'p chess_bot) outcome"
where
  "search_node child R now fuel depth alpha beta is_maximizing start_time time_limit st =
     (case deadline_passed now start_time time_limit st of (expired, st0) \<Rightarrow>
      if expired then Returns ((None, Some (Fin 0)), st0)
      else
        let transposition_key = generate_transposition_key R st0 in
        case lookup (transposition_table st0) transposition_key (int depth) alpha beta of
          Some (tt_move, tt_eval, tt_flag) \<Rightarrow> Returns ((tt_move, Some tt_eval), st0)
        | None \<Rightarrow>
            if depth = 0 \<or> is_game_over R (board st0) then
              obind (if depth = 0 then quiescence R fuel alpha beta st0
                     else obind (evaluate (piece_at R (board st0))) (\<lambda>v. Returns (Fin v, st0)))
                (\<lambda>(eval_score, st1).
                   Returns ((None, Some eval_score),
                            tt_store transposition_key (int depth) eval_score ''EXACT'' None st1))
            else
              let moves = order_moves R st0 (legal_moves R (board st0)) depth in
              obind (search_moves child R now depth transposition_key is_maximizing
                       start_time time_limit moves alpha beta None NegInf st0)
                (\<lambda>(returned, best_move, best_eval, st1).
                   if returned then Returns ((best_move, Some best_eval), st1)
                   else
                     obind (if best_eval \<noteq> NegInf then Returns best_eval
                            else obind (evaluate (piece_at R (board st1))) (\<lambda>v. Returns (Fin v)))
                       (\<lambda>stored.
                          Returns ((best_move, Some best_eval),
                                   tt_store transposition_key (int depth) stored ''EXACT'' best_move st1))))"

text \<open>
  \<open>search\<close>, by recursion on the depth. At depth 0 the node is a leaf and makes no
  recursive call, so what stands for the child there is never applied. \<open>fuel\<close> is handed
  to the quiescence search at the leaves.
\<close>

primrec search ::
  "'p rules \<Rightarrow> (nat \<Rightarrow> real) \<Rightarrow> nat \<Rightarrow> nat \<Rightarrow> score \<Rightarrow> score \<Rightarrow> bool \<Rightarrow> real option \<Rightarrow> real option \<Rightarrow>
   'p chess_bot \<Rightarrow> ((move option \<times> score option) \<times> 'p chess_bot) outcome"
where
  "search R now fuel 0 =
     (\<lambda>alpha beta is_maximizing start_time time_limit st.
        search_node (\<lambda>a b mx s. OutOfFuel) R now fuel 0
          alpha beta is_maximizing start_time time_limit st)"
| "search R now fuel (Suc d) =
     (\<lambda>alpha beta is_maximizing start_time time_limit st.
        search_node (\<lambda>a b mx s. search R now fuel d a b mx start_time time_limit s) R now fuel (Suc d)
          alpha beta is_maximizing start_time time_limit st)"

section \<open>Iterative deepening\<close>

text \<open>
  \<open>iterative_deepening\<close>: \<open>start_time = time.time()\<close>, then the loop
  \<open>while depth <= max_depth\<close>, which reads the clock before every depth.
\<close>

function iterative_deepening_loop ::
  "'p rules \<Rightarrow> (nat \<Rightarrow> real) \<Rightarrow> nat \<Rightarrow> nat \<Rightarrow> real \<Rightarrow> real \<Rightarrow> nat \<Rightarrow> move option \<Rightarrow> 'p chess_bot \<Rightarrow>
   (move option \<times> 'p chess_bot) outcome"
where
  "iterative_deepening_loop R now fuel max_depth time_limit_seconds start_time depth best_move st =
     (if depth \<le> max_depth then
        let elapsed_time = now (clock st) - start_time;
            st0 = st\<lparr>clock := Suc (clock st)\<rparr>
        in
          if elapsed_time \<ge> time_limit_seconds then Returns (best_move, st0)
          else
            obind (search R now fuel depth NegInf PosInf (turn R (board st0))
                     (Some start_time) (Some time_limit_seconds) st0)
              (\<lambda>((move, _), st1).
                 iterative_deepening_loop R now fuel max_depth time_limit_seconds start_time
                   (depth + 1) (if move \<noteq> None then move else best_move) st1)
      else Returns (best_move, st))"
  by pat_completeness auto
termination
  by (relation "measure (\<lambda>(R, now, fuel, max_depth, tl, t0, depth, bm, s). Suc max_depth - depth)") auto

definition iterative_deepening ::
  "'p rules \<Rightarrow> (nat \<Rightarrow> real) \<Rightarrow> nat \<Rightarrow> nat \<Rightarrow> real \<Rightarrow> 'p chess_bot \<Rightarrow> (move option \<times> 'p chess_bot) outcome"
where
  "iterative_deepening R now fuel max_depth time_limit_seconds st =
     (let start_time = now (clock st);
          st0 = st\<lparr>clock := Suc (clock st)\<rparr>
      in iterative_deepening_loop R now fuel max_depth time_limit_seconds start_time 1 None st0)"

section \<open>The move-ordering score as the specification words it\<close>

text \<open>
  The score of a candidate move as the specification describes it: 1,000,000 for the move
  recorded in the raw table entry of the current position, the capture term, 800 for a
  promotion, 500 for the killer move of this ply, and the history count of the origin
  square. It is compared below with \<open>order_score\<close>, which follows the source.
\<close>

definition spec_order_score :: "'p rules \<Rightarrow> 'p chess_bot \<Rightarrow> nat \<Rightarrow> move \<Rightarrow> int" where
  "spec_order_score R st depth m =
     (case fmlookup (table (transposition_table st)) (fen R (board st)) of
        None \<Rightarrow> 0
      | Some (d, e, f, recorded) \<Rightarrow> if recorded = Some m then 1000000 else 0)
     + (if is_capture R (board st) m then
          (case piece_at R (board st) (to_square m) of
             None \<Rightarrow> 1000
           | Some victim \<Rightarrow>
               (case piece_at R (board st) (from_square m) of
                  None \<Rightarrow> 1000
                | Some attacker \<Rightarrow>
                    1000 * mvv_lva (piece_type victim) - mvv_lva (piece_type attacker)))
        else 0)
     + (if truthy (promotion m) then 800 else 0)
     + (if depth < length (killer_moves st) \<and> killer_moves st ! depth = Some m then 500 else 0)
     + history_table st (from_square m div 8) (from_square m mod 8)"


section \<open>Auxiliary definitions for the search proofs\<close>

text \<open>Two engine states have the same board: the same position and the same undo stack.\<close>

definition same_board :: "'p chess_bot \<Rightarrow> 'p chess_bot \<Rightarrow> bool" where
  "same_board st st' = (board st' = board st \<and> move_stack st' = move_stack st)"


section \<open>Auxiliary notions for the quiescence search\<close>

text \<open>
  A move is noisy in a position when the quiescence loop does not skip it: it is a capture
  or carries a (truthy) promotion piece. \<open>noisy_only\<close> is the rules engine whose move
  generator yields only the noisy legal moves.
\<close>

definition noisy :: "'p rules \<Rightarrow> 'p \<Rightarrow> move \<Rightarrow> bool" where
  "noisy R p m = (is_capture R p m \<or> truthy (promotion m))"

definition noisy_only :: "'p rules \<Rightarrow> 'p rules" where
  "noisy_only R = R\<lparr>legal_moves := (\<lambda>p. filter (noisy R p) (legal_moves R p))\<rparr>"

text \<open>
  The number of pieces and the number of pawns on the board, read off
  \<open>board.piece_map()\<close>, and the property of the rules of chess that bounds the depth of
  the quiescence recursion: a legal capture removes a piece and creates no pawn, a legal
  promotion removes a pawn and creates no additional piece.
\<close>

definition piece_count :: "placement \<Rightarrow> nat" where
  "piece_count pa = length (piece_map pa)"

definition pawn_count :: "placement \<Rightarrow> nat" where
  "pawn_count pa = length (filter (\<lambda>item. piece_type (snd item) = 1) (piece_map pa))"

definition captures_and_promotions_shrink :: "'p rules \<Rightarrow> bool" where
  "captures_and_promotions_shrink R =
     (\<forall>p. \<forall>m\<in>set (legal_moves R p).
        (is_capture R p m \<longrightarrow>
           piece_count (piece_at R (apply_move R p m)) < piece_count (piece_at R p) \<and>
           pawn_count (piece_at R (apply_move R p m)) \<le> pawn_count (piece_at R p)) \<and>
        (truthy (promotion m) \<longrightarrow>
           pawn_count (piece_at R (apply_move R p m)) < pawn_count (piece_at R p) \<and>
           piece_count (piece_at R (apply_move R p m)) \<le> piece_count (piece_at R p)))"

definition quiescence_bound :: "'p rules \<Rightarrow> 'p \<Rightarrow> nat" where
  "quiescence_bound R p = piece_count (piece_at R p) + pawn_count (piece_at R p)"

section \<open>Auxiliary definitions for the evaluator proofs\<close>

text \<open>
  The per-square contributions that the loop of \<open>evaluate\<close> accumulates, and an example
  placement (kings on e1 and e8, white pawns on d2 and e2, a black pawn on d7, a black queen on d8).
\<close>

definition flip_color :: "piece \<Rightarrow> piece" where
  "flip_color piece = piece\<lparr>color := \<not> color piece\<rparr>"

definition square_eval :: "placement \<Rightarrow> int \<Rightarrow> int" where
  "square_eval pa square =
     (case pa square of None \<Rightarrow> 0
      | Some piece \<Rightarrow> if color piece then piece_value pa square piece else - piece_value pa square piece)"

definition square_isolated :: "placement \<Rightarrow> bool \<Rightarrow> int \<Rightarrow> int" where
  "square_isolated pa c square =
     (case pa square of None \<Rightarrow> 0
      | Some piece \<Rightarrow> if piece_type piece = 1 \<and> color piece = c \<and> is_isolated_pawn pa square c then 1 else 0)"


definition example_placement :: placement where
  "example_placement =
     (\<lambda>_. None)(4 := Some \<lparr>piece_type = 6, color = True\<rparr>,
                 60 := Some \<lparr>piece_type = 6, color = False\<rparr>,
                 12 := Some \<lparr>piece_type = 1, color = True\<rparr>,
                 11 := Some \<lparr>piece_type = 1, color = True\<rparr>,
                 51 := Some \<lparr>piece_type = 1, color = False\<rparr>,
                 59 := Some \<lparr>piece_type = 5, color = False\<rparr>)"


section \<open>An example rules engine\<close>

text \<open>
  A small instance of the rules-engine parameters, used to run the model on concrete
  inputs. Position 0 has the kings on e1 and e8, a white pawn on e4 and a black pawn on d5,
  White to move; its move generator offers the quiet move Ke1-e2 (to position 1) and the
  capture e4xd5 (to position 2). In position 1 Black can capture d5xe4 (to position 3).
  Positions 2 and 3 offer no move and count as game over.
\<close>

definition quiet_move :: move where
  "quiet_move = \<lparr>from_square = 4, to_square = 12, promotion = None\<rparr>"

definition capture_move :: move where
  "capture_move = \<lparr>from_square = 28, to_square = 35, promotion = None\<rparr>"

definition recapture_move :: move where
  "recapture_move = \<lparr>from_square = 35, to_square = 28, promotion = None\<rparr>"

definition example_piece_at :: "nat \<Rightarrow> int \<Rightarrow> piece option" where
  "example_piece_at p =
     (if p = 0 then
        (\<lambda>_. None)(4 := Some \<lparr>piece_type = 6, color = True\<rparr>,
                    60 := Some \<lparr>piece_type = 6, color = False\<rparr>,
                    28 := Some \<lparr>piece_type = 1, color = True\<rparr>,
                    35 := Some \<lparr>piece_type = 1, color = False\<rparr>)
      else if p = 1 then
        (\<lambda>_. None)(12 := Some \<lparr>piece_type = 6, color = True\<rparr>,
                    60 := Some \<lparr>piece_type = 6, color = False\<rparr>,
                    28 := Some \<lparr>piece_type = 1, color = True\<rparr>,
                    35 := Some \<lparr>piece_type = 1, color = False\<rparr>)
      else if p = 2 then
        (\<lambda>_. None)(4 := Some \<lparr>piece_type = 6, color = True\<rparr>,
                    60 := Some \<lparr>piece_type = 6, color = False\<rparr>,
                    35 := Some \<lparr>piece_type = 1, color = True\<rparr>)
      else if p = 3 then
        (\<lambda>_. None)(12 := Some \<lparr>piece_type = 6, color = True\<rparr>,
                    60 := Some \<lparr>piece_type = 6, color = False\<rparr>,
                    28 := Some \<lparr>piece_type = 1, color = False\<rparr>)
      else (\<lambda>_. None))"

definition example_rules :: "nat rules" where
  "example_rules =
     \<lparr>legal_moves = (\<lambda>p. if p = 0 then [quiet_move, capture_move]
                          else if p = 1 then [recapture_move] else []),
      apply_move = (\<lambda>p m. if p = 0 \<and> m = quiet_move then 1
                           else if p = 0 \<and> m = capture_move then 2
                           else if p = 1 \<and> m = recapture_move then 3 else 4),
      is_capture = (\<lambda>p m. (p = 0 \<and> m = capture_move) \<or> (p = 1 \<and> m = recapture_move)),
      piece_at = example_piece_at,
      is_game_over = (\<lambda>p. 2 \<le> p),
      fen = (\<lambda>p. if p = 0 then ''4k3/8/8/3p4/4P3/8/8/4K3 w - - 0 1''
                  else if p = 1 then ''4k3/8/8/3p4/4P3/8/4K3/8 b - - 1 1''
                  else if p = 2 then ''4k3/8/8/3P4/8/8/8/4K3 b - - 0 1''
                  else if p = 3 then ''4k3/8/8/8/4p3/8/4K3/8 w - - 0 2''
                  else ''8/8/8/8/8/8/8/8 w - - 0 1''),
      turn = (\<lambda>p. p = 0 \<or> p = 3)\<rparr>"

text \<open>A fresh \<open>ChessBot\<close> on position \<open>p\<close>, as \<open>__init__\<close> sets it up.\<close>

definition new_bot :: "'p \<Rightarrow> 'p chess_bot" where
  "new_bot p =
     \<lparr>board = p, move_stack = [],
      history_table = (\<lambda>r c. 0),
      killer_moves = [None, None, None, None, None],
      transposition_table = \<lparr>table = fmempty, tt_size = 100000\<rparr>,
      clock = 0\<rparr>"

text \<open>Two clocks: one that advances a second per reading, and one that stands still.\<close>

definition ticking :: "nat \<Rightarrow> real" where
  "ticking n = real n"

section \<open>Properties of the transposition table\<close>

text \<open>
  Claim C4. \<open>lookup\<close> returns nothing when the key has no entry or the stored depth is
  strictly less than the requested depth; when the stored depth is at least the requested
  depth it returns the entry (as best move, score, flag) exactly when the flag is EXACT,
  or LOWER with stored score at least beta, or UPPER with stored score at most alpha, and
  nothing otherwise.
\<close>

theorem lookup_usable_iff:
  "(fmlookup (table tt) key = None \<longrightarrow> lookup tt key depth alpha beta = None) \<and>
   (\<forall>d s f m. fmlookup (table tt) key = Some (d, s, f, m) \<longrightarrow>
      (d < depth \<longrightarrow> lookup tt key depth alpha beta = None) \<and>
      (depth \<le> d \<longrightarrow>
         (lookup tt key depth alpha beta = Some (m, s, f)) =
           (f = ''EXACT'' \<or> (f = ''LOWER'' \<and> beta \<le> s) \<or> (f = ''UPPER'' \<and> s \<le> alpha)) \<and>
         (lookup tt key depth alpha beta = None) =
           (\<not> (f = ''EXACT'' \<or> (f = ''LOWER'' \<and> beta \<le> s) \<or> (f = ''UPPER'' \<and> s \<le> alpha)))))"
  by (auto simp: lookup_def)

theorem lookup_usable_iff_witness:
  "lookup \<lparr>table = fmupd ''k'' (3, Fin 7, ''LOWER'', None) fmempty, tt_size = 10\<rparr> ''k'' 2 (Fin 0) (Fin 5)
     = Some (None, Fin 7, ''LOWER'') \<and>
   lookup \<lparr>table = fmupd ''k'' (3, Fin 7, ''LOWER'', None) fmempty, tt_size = 10\<rparr> ''k'' 4 (Fin 0) (Fin 5)
     = None \<and>
   lookup \<lparr>table = fmupd ''k'' (3, Fin 7, ''LOWER'', None) fmempty, tt_size = 10\<rparr> ''j'' 2 (Fin 0) (Fin 5)
     = None"
  using lookup_usable_iff [of "\<lparr>table = fmupd ''k'' (3, Fin 7, ''LOWER'', None) fmempty, tt_size = 10\<rparr>"
      "''k''" 2 "Fin 0" "Fin 5"]
    lookup_usable_iff [of "\<lparr>table = fmupd ''k'' (3, Fin 7, ''LOWER'', None) fmempty, tt_size = 10\<rparr>"
      "''k''" 4 "Fin 0" "Fin 5"]
    lookup_usable_iff [of "\<lparr>table = fmupd ''k'' (3, Fin 7, ''LOWER'', None) fmempty, tt_size = 10\<rparr>"
      "''j''" 2 "Fin 0" "Fin 5"]
  by simp

text \<open>
  Claim C7. \<open>store\<close> clears the whole table when, immediately before the insert, the entry
  count exceeds the capacity (so only the new entry remains); otherwise every other entry
  is kept; in all cases the new entry replaces whatever the key held, and the capacity is
  unchanged.
\<close>

theorem store_clears_then_overwrites:
  "(len_table tt > tt_size tt \<longrightarrow>
      table (store tt key depth eval_score flag best_move)
        = fmupd key (depth, eval_score, flag, best_move) fmempty) \<and>
   (len_table tt \<le> tt_size tt \<longrightarrow>
      table (store tt key depth eval_score flag best_move)
        = fmupd key (depth, eval_score, flag, best_move) (table tt)) \<and>
   fmlookup (table (store tt key depth eval_score flag best_move)) key
     = Some (depth, eval_score, flag, best_move) \<and>
   tt_size (store tt key depth eval_score flag best_move) = tt_size tt"
  by (simp add: store_def Let_def)

theorem store_clears_then_overwrites_witness:
  "table (store \<lparr>table = fmupd ''a'' (1, Fin 1, ''EXACT'', None) (fmupd ''b'' (1, Fin 2, ''EXACT'', None) fmempty),
                 tt_size = 1\<rparr> ''c'' 2 (Fin 3) ''LOWER'' None)
     = fmupd ''c'' (2, Fin 3, ''LOWER'', None) fmempty \<and>
   table (store \<lparr>table = fmupd ''a'' (1, Fin 1, ''EXACT'', None) fmempty, tt_size = 1\<rparr>
                ''a'' 2 (Fin 3) ''LOWER'' None)
     = fmupd ''a'' (2, Fin 3, ''LOWER'', None) (fmupd ''a'' (1, Fin 1, ''EXACT'', None) fmempty)"
  using store_clears_then_overwrites [of
      "\<lparr>table = fmupd ''a'' (1, Fin 1, ''EXACT'', None) (fmupd ''b'' (1, Fin 2, ''EXACT'', None) fmempty),
        tt_size = 1\<rparr>" "''c''" 2 "Fin 3" "''LOWER''" None]
    store_clears_then_overwrites [of
      "\<lparr>table = fmupd ''a'' (1, Fin 1, ''EXACT'', None) fmempty, tt_size = 1\<rparr>"
      "''a''" 2 "Fin 3" "''LOWER''" None]
  by (simp add: len_table_def fcard_finsert_if)

section \<open>Properties of the evaluator\<close>

lemma evaluate_step_apply:
  "evaluate_step pa (square, piece) (e, w, b) =
     (e + (if color piece then piece_value pa square piece else - piece_value pa square piece),
      w + (if piece_type piece = 1 \<and> color piece = True \<and> is_isolated_pawn pa square True then 1 else 0),
      b + (if piece_type piece = 1 \<and> color piece = False \<and> is_isolated_pawn pa square False then 1 else 0))"
  by (cases "color piece") (simp_all add: evaluate_step_def Let_def)

lemma fold_evaluate_step:
  "fold (evaluate_step pa) (List.map_filter (\<lambda>square. map_option (Pair square) (pa square)) xs) (e, w, b)
     = (e + sum_list (map (square_eval pa) xs),
        w + sum_list (map (square_isolated pa True) xs),
        b + sum_list (map (square_isolated pa False) xs))"
proof (induction xs arbitrary: e w b)
  case Nil
  then show ?case by (simp add: List.map_filter_simps)
next
  case (Cons x xs)
  show ?case
  proof (cases "pa x")
    case None
    then show ?thesis
      using Cons.IH by (simp add: List.map_filter_simps square_eval_def square_isolated_def)
  next
    case (Some piece)
    then show ?thesis
      by (simp add: List.map_filter_simps evaluate_step_apply Cons.IH
          square_eval_def square_isolated_def)
  qed
qed

lemma sum_list_board: "sum_list (map h (rev [0..63::int])) = sum h {0..63}"
proof -
  have "sum_list (map h (rev [0..63::int])) = sum_list (map h [0..63])"
    by (simp only: rev_map [symmetric] sum_list_rev)
  also have "\<dots> = sum h (set [0..63])"
    by (rule sum_set_upto_conv_sum_list_int [symmetric])
  finally show ?thesis by (simp only: set_upto)
qed

lemma evaluate_sums:
  "evaluate pa =
     obind (index isolated_pawn_penalty (sum (square_isolated pa True) {0..63})) (\<lambda>pw.
     obind (index isolated_pawn_penalty (sum (square_isolated pa False) {0..63})) (\<lambda>pb.
       Returns (sum (square_eval pa) {0..63} + pw - pb)))"
  unfolding evaluate_def piece_map_def fold_evaluate_step sum_list_board
  by (simp only: prod.case add_0)

lemma mirror_square_div: "mirror_square s div 8 = 7 - s div 8"
proof -
  have "0 \<le> s mod 8" "s mod 8 < 8" by simp_all
  then have "((7 - s div 8) * 8 + s mod 8) div 8 = 7 - s div 8" by simp
  then show ?thesis by (simp only: mirror_square_def)
qed

lemma mirror_square_mod: "mirror_square s mod 8 = s mod 8"
  by (simp only: mirror_square_def mod_mult_self3 mod_mod_trivial)

lemma mirror_square_involution: "mirror_square (mirror_square s) = s"
proof -
  have "mirror_square (mirror_square s) = (7 - mirror_square s div 8) * 8 + mirror_square s mod 8"
    by (simp only: mirror_square_def)
  also have "\<dots> = s div 8 * 8 + s mod 8"
    by (simp only: mirror_square_div mirror_square_mod) simp
  finally show ?thesis by simp
qed

lemma mirror_square_range:
  "0 \<le> s \<Longrightarrow> s \<le> 63 \<Longrightarrow> 0 \<le> mirror_square s \<and> mirror_square s \<le> 63"
proof -
  assume a: "0 \<le> s" "s \<le> 63"
  have f: "0 \<le> s mod 8" "s mod 8 < 8" by simp_all
  from a have r: "0 \<le> s div 8" "s div 8 \<le> 7" by simp_all
  show ?thesis unfolding mirror_square_def using f r by simp
qed

lemma mirror_square_rank_file:
  "0 \<le> f \<Longrightarrow> f < 8 \<Longrightarrow> mirror_square (r * 8 + f) = (7 - r) * 8 + f"
  by (simp add: mirror_square_def)

lemma mirror_board_rank_file:
  "0 \<le> f \<Longrightarrow> f < 8 \<Longrightarrow> mirror_board pa (r * 8 + f) = map_option flip_color (pa ((7 - r) * 8 + f))"
  by (simp add: mirror_board_def mirror_square_rank_file flip_color_def [abs_def])

lemma bex_rank_flip:
  "(\<exists>rank\<in>{a..b::int}. P (7 - rank)) \<longleftrightarrow> (\<exists>rank\<in>{7 - b..7 - a}. P rank)"
proof
  assume "\<exists>rank\<in>{a..b}. P (7 - rank)"
  then obtain k where "k \<in> {a..b}" "P (7 - k)" by blast
  then have "7 - k \<in> {7 - b..7 - a}" by simp
  with \<open>P (7 - k)\<close> show "\<exists>rank\<in>{7 - b..7 - a}. P rank" by blast
next
  assume "\<exists>rank\<in>{7 - b..7 - a}. P rank"
  then obtain k where "k \<in> {7 - b..7 - a}" "P k" by blast
  then have "7 - k \<in> {a..b}" "P (7 - (7 - k))" by simp_all
  then show "\<exists>rank\<in>{a..b}. P (7 - rank)" by blast
qed

lemma sum_rank_flip:
  "sum (\<lambda>rank. g (7 - rank)) {a..b::int} = sum g {7 - b..7 - a}"
  by (rule sum.reindex_bij_witness [where i = "\<lambda>x. 7 - x" and j = "\<lambda>x. 7 - x"]) auto


lemma flip_color_flip: "flip_color (flip_color piece) = piece"
  by (simp add: flip_color_def)

lemma mirror_board_at: "mirror_board pa (mirror_square s) = map_option flip_color (pa s)"
  by (simp add: mirror_board_def mirror_square_involution flip_color_def [abs_def])

lemma mirror_board_involution: "mirror_board (mirror_board pa) = pa"
proof
  fix s
  have "mirror_board (mirror_board pa) s = map_option flip_color (mirror_board pa (mirror_square s))"
    by (simp add: mirror_board_def flip_color_def [abs_def])
  also have "\<dots> = map_option flip_color (map_option flip_color (pa s))"
    by (simp only: mirror_board_at)
  also have "\<dots> = pa s"
    by (cases "pa s") (simp_all add: flip_color_flip)
  finally show "mirror_board (mirror_board pa) s = pa s" .
qed

lemma list_ex_upto: "list_ex P [a..b] = (\<exists>x\<in>{a..b}. P x)"
  by (simp only: list_ex_iff set_upto)

lemma list_ex_rev_upto: "list_ex P (rev [a..b]) = (\<exists>x\<in>{a..b}. P x)"
  by (simp only: list_ex_iff set_rev set_upto)

lemma mirror_case_white:
  "0 \<le> file \<Longrightarrow> file < 8 \<Longrightarrow>
   (case mirror_board pa (rank * 8 + file) of None \<Rightarrow> False
    | Some piece \<Rightarrow> piece_type piece = 1 \<and> color piece)
   = (case pa ((7 - rank) * 8 + file) of None \<Rightarrow> False
      | Some piece \<Rightarrow> piece_type piece = 1 \<and> \<not> color piece)"
  by (cases "pa ((7 - rank) * 8 + file)") (simp_all add: mirror_board_rank_file flip_color_def)

lemma mirror_guard_white:
  "(0 \<le> file \<and> file < 8 \<and>
     (case mirror_board pa (rank * 8 + file) of None \<Rightarrow> False
      | Some piece \<Rightarrow> piece_type piece = 1 \<and> color piece))
   = (0 \<le> file \<and> file < 8 \<and>
     (case pa ((7 - rank) * 8 + file) of None \<Rightarrow> False
      | Some piece \<Rightarrow> piece_type piece = 1 \<and> \<not> color piece))"
  using mirror_case_white [of "file" pa rank] by blast


lemma is_passed_pawn_mirror_white:
  "is_passed_pawn (mirror_board pa) (mirror_square s) False = is_passed_pawn pa s True"
proof -
  let ?Q = "\<lambda>rank. list_ex (\<lambda>file. 0 \<le> file \<and> file < 8 \<and>
              (case pa (rank * 8 + file) of None \<Rightarrow> False
               | Some piece \<Rightarrow> piece_type piece = 1 \<and> \<not> color piece))
            [s mod 8 - 1, s mod 8, s mod 8 + 1]"
  have "is_passed_pawn (mirror_board pa) (mirror_square s) False
          = (\<not> (\<exists>rank\<in>{0..7 - s div 8 - 1}. ?Q (7 - rank)))"
    unfolding is_passed_pawn_def Let_def mirror_square_div mirror_square_mod list_ex_rev_upto
      mirror_guard_white
    by (simp only: if_False)
  also have "\<dots> = (\<not> (\<exists>rank\<in>{7 - (7 - s div 8 - 1)..7 - 0}. ?Q rank))"
    using bex_rank_flip [where P = ?Q and a = 0 and b = "7 - s div 8 - 1"] by (rule arg_cong)
  also have "\<dots> = (\<not> (\<exists>rank\<in>{s div 8 + 1..7}. ?Q rank))"
  proof -
    have "7 - (7 - s div 8 - 1) = s div 8 + 1" "7 - (0::int) = 7" by simp_all
    then show ?thesis by (simp only:)
  qed
  also have "\<dots> = is_passed_pawn pa s True"
    unfolding is_passed_pawn_def Let_def list_ex_upto by (simp only: if_True)
  finally show ?thesis .
qed

lemma is_passed_pawn_mirror:
  "is_passed_pawn (mirror_board pa) (mirror_square s) (\<not> c) = is_passed_pawn pa s c"
proof (cases c)
  case True
  then show ?thesis by (simp add: is_passed_pawn_mirror_white)
next
  case False
  have "is_passed_pawn (mirror_board (mirror_board pa)) (mirror_square (mirror_square s)) False
          = is_passed_pawn (mirror_board pa) (mirror_square s) True"
    by (rule is_passed_pawn_mirror_white)
  with False show ?thesis
    by (simp add: mirror_board_involution mirror_square_involution)
qed


lemma mirror_case_color:
  "0 \<le> file \<Longrightarrow> file < 8 \<Longrightarrow>
   (case mirror_board pa (rank * 8 + file) of None \<Rightarrow> False
    | Some piece \<Rightarrow> piece_type piece = 1 \<and> color piece = (\<not> c))
   = (case pa ((7 - rank) * 8 + file) of None \<Rightarrow> False
      | Some piece \<Rightarrow> piece_type piece = 1 \<and> color piece = c)"
  by (cases "pa ((7 - rank) * 8 + file)") (auto simp: mirror_board_rank_file flip_color_def)

lemma is_isolated_pawn_mirror:
  "is_isolated_pawn (mirror_board pa) (mirror_square s) (\<not> c) = is_isolated_pawn pa s c"
proof -
  let ?R = "\<lambda>fl rank. (case pa (rank * 8 + fl) of None \<Rightarrow> False
                         | Some piece \<Rightarrow> piece_type piece = 1 \<and> color piece = c)"
  have inner: "0 \<le> fl \<Longrightarrow> fl < 8 \<Longrightarrow>
      list_ex (\<lambda>rank. case mirror_board pa (rank * 8 + fl) of None \<Rightarrow> False
                     | Some piece \<Rightarrow> piece_type piece = 1 \<and> color piece = (\<not> c)) [0..7]
      = list_ex (?R fl) [0..7]" for fl
  proof -
    assume f: "0 \<le> fl" "fl < 8"
    have "list_ex (\<lambda>rank. case mirror_board pa (rank * 8 + fl) of None \<Rightarrow> False
                     | Some piece \<Rightarrow> piece_type piece = 1 \<and> color piece = (\<not> c)) [0..7]
          = (\<exists>rank\<in>{0..7}. ?R fl (7 - rank))"
      unfolding list_ex_upto using f by (simp only: mirror_case_color)
    also have "\<dots> = (\<exists>rank\<in>{7 - 7..7 - 0}. ?R fl rank)"
      by (rule bex_rank_flip [where P = "?R fl" and a = 0 and b = 7])
    also have "\<dots> = (\<exists>rank\<in>{0..7::int}. ?R fl rank)"
    proof -
      have "7 - 7 = (0::int)" "7 - 0 = (7::int)" by simp_all
      then show ?thesis by (simp only:)
    qed
    also have "\<dots> = list_ex (?R fl) [0..7]"
      by (simp only: list_ex_upto)
    finally show ?thesis .
  qed
  have guard: "(0 \<le> fl \<and> fl < 8 \<and>
      list_ex (\<lambda>rank. case mirror_board pa (rank * 8 + fl) of None \<Rightarrow> False
                     | Some piece \<Rightarrow> piece_type piece = 1 \<and> color piece = (\<not> c)) [0..7])
      = (0 \<le> fl \<and> fl < 8 \<and> list_ex (?R fl) [0..7])" for fl
    using inner [of fl] by blast
  show ?thesis
    unfolding is_isolated_pawn_def Let_def mirror_square_mod guard ..
qed


lemma sum_list_upto: "sum_list (map g [a..b]) = sum g {a..b::int}"
  using sum_set_upto_conv_sum_list_int [of g a b] by (simp only: set_upto)

lemma mirror_weight_white:
  "0 \<le> fl \<Longrightarrow> fl < 8 \<Longrightarrow>
   (case mirror_board pa (rank * 8 + fl) of None \<Rightarrow> 0
    | Some piece \<Rightarrow> if piece_type piece = 1 \<and> \<not> color piece then w else (0::int))
   = (case pa ((7 - rank) * 8 + fl) of None \<Rightarrow> 0
      | Some piece \<Rightarrow> if piece_type piece = 1 \<and> color piece then w else 0)"
  by (cases "pa ((7 - rank) * 8 + fl)") (simp_all add: mirror_board_rank_file flip_color_def)

lemma calculate_king_shield_mirror_white:
  "calculate_king_shield (mirror_board pa) (mirror_square s) False = calculate_king_shield pa s True"
proof -
  let ?w = "\<lambda>fl. king_pawn_shield_scores ! nat (min 5 fl)"
  let ?h = "\<lambda>fl rank. (case pa (rank * 8 + fl) of None \<Rightarrow> 0
              | Some piece \<Rightarrow> if piece_type piece = 1 \<and> color piece then ?w fl else 0)"
  let ?F = "{max 0 (s mod 8 - 1)..min 8 (s mod 8 + 2) - 1}"
  have inner: "fl \<in> ?F \<Longrightarrow>
      sum (\<lambda>rank. case mirror_board pa (rank * 8 + fl) of None \<Rightarrow> 0
              | Some piece \<Rightarrow> if piece_type piece = 1 \<and> \<not> color piece then ?w fl else 0)
        {max 0 (7 - s div 8 - 1)..7 - s div 8 + 1 - 1}
      = sum (?h fl) {s div 8..min 8 (s div 8 + 2) - 1}" for fl
  proof -
    assume "fl \<in> ?F"
    then have f: "0 \<le> fl" "fl < 8" by auto
    have "sum (\<lambda>rank. case mirror_board pa (rank * 8 + fl) of None \<Rightarrow> 0
              | Some piece \<Rightarrow> if piece_type piece = 1 \<and> \<not> color piece then ?w fl else 0)
        {max 0 (7 - s div 8 - 1)..7 - s div 8 + 1 - 1}
        = sum (\<lambda>rank. ?h fl (7 - rank)) {max 0 (7 - s div 8 - 1)..7 - s div 8 + 1 - 1}"
      using f by (simp only: mirror_weight_white)
    also have "\<dots> = sum (?h fl) {7 - (7 - s div 8 + 1 - 1)..7 - max 0 (7 - s div 8 - 1)}"
      by (rule sum_rank_flip [where g = "?h fl"])
    also have "\<dots> = sum (?h fl) {s div 8..min 8 (s div 8 + 2) - 1}"
    proof -
      have "7 - (7 - s div 8 + 1 - 1) = s div 8"
        "7 - max 0 (7 - s div 8 - 1) = min 8 (s div 8 + 2) - 1" by simp_all
      then show ?thesis by (simp only:)
    qed
    finally show ?thesis .
  qed
  have "calculate_king_shield (mirror_board pa) (mirror_square s) False
      = sum (\<lambda>fl. sum (\<lambda>rank. case mirror_board pa (rank * 8 + fl) of None \<Rightarrow> 0
              | Some piece \<Rightarrow> if piece_type piece = 1 \<and> \<not> color piece then ?w fl else 0)
        {max 0 (7 - s div 8 - 1)..7 - s div 8 + 1 - 1}) ?F"
    unfolding calculate_king_shield_def Let_def mirror_square_div mirror_square_mod sum_list_upto
    by (simp only: if_False)
  also have "\<dots> = sum (\<lambda>fl. sum (?h fl) {s div 8..min 8 (s div 8 + 2) - 1}) ?F"
    by (rule sum.cong [OF refl]) (rule inner)
  also have "\<dots> = calculate_king_shield pa s True"
    unfolding calculate_king_shield_def Let_def sum_list_upto by (simp only: if_True)
  finally show ?thesis .
qed

lemma calculate_king_shield_mirror:
  "calculate_king_shield (mirror_board pa) (mirror_square s) (\<not> c) = calculate_king_shield pa s c"
proof (cases c)
  case True
  then show ?thesis by (simp add: calculate_king_shield_mirror_white)
next
  case False
  have "calculate_king_shield (mirror_board (mirror_board pa)) (mirror_square (mirror_square s)) False
          = calculate_king_shield (mirror_board pa) (mirror_square s) True"
    by (rule calculate_king_shield_mirror_white)
  with False show ?thesis
    by (simp add: mirror_board_involution mirror_square_involution)
qed


lemma flip_color_simps:
  "piece_type (flip_color piece) = piece_type piece"
  "color (flip_color piece) = (\<not> color piece)"
  by (simp_all add: flip_color_def)

lemma piece_value_mirror:
  "piece_value (mirror_board pa) (mirror_square s) (flip_color piece) = piece_value pa s piece"
proof (cases "color piece")
  case True
  have p: "is_passed_pawn (mirror_board pa) (mirror_square s) False = is_passed_pawn pa s True"
    using is_passed_pawn_mirror [of pa s True] by simp
  have k: "calculate_king_shield (mirror_board pa) (mirror_square s) False
             = calculate_king_shield pa s True"
    using calculate_king_shield_mirror [of pa s True] by simp
  show ?thesis
    using True by (simp add: piece_value_def Let_def flip_color_simps mirror_square_div p k)
next
  case False
  have p: "is_passed_pawn (mirror_board pa) (mirror_square s) True = is_passed_pawn pa s False"
    using is_passed_pawn_mirror [of pa s False] by simp
  have k: "calculate_king_shield (mirror_board pa) (mirror_square s) True
             = calculate_king_shield pa s False"
    using calculate_king_shield_mirror [of pa s False] by simp
  show ?thesis
    using False by (simp add: piece_value_def Let_def flip_color_simps mirror_square_div p k)
qed

lemma square_eval_mirror:
  "square_eval (mirror_board pa) (mirror_square s) = - square_eval pa s"
  by (cases "pa s")
    (simp_all add: square_eval_def mirror_board_at piece_value_mirror flip_color_simps)

lemma square_isolated_mirror:
  "square_isolated (mirror_board pa) (\<not> c) (mirror_square s) = square_isolated pa c s"
proof (cases "pa s")
  case None
  then show ?thesis by (simp add: square_isolated_def mirror_board_at)
next
  case (Some piece)
  then show ?thesis
    using is_isolated_pawn_mirror [of pa s c]
    by (auto simp: square_isolated_def mirror_board_at flip_color_simps)
qed

lemma sum_board_mirror: "sum g {0..63} = sum (\<lambda>s. g (mirror_square s)) {0..63}"
proof (rule sum.reindex_bij_witness [where i = mirror_square and j = mirror_square])
  fix a :: int
  assume "a \<in> {0..63}"
  then show "mirror_square a \<in> {0..63}"
    using mirror_square_range [of a] by simp
  show "mirror_square (mirror_square a) = a"
    by (rule mirror_square_involution)
  show "g (mirror_square (mirror_square a)) = g a"
    by (simp only: mirror_square_involution)
next
  fix b :: int
  assume "b \<in> {0..63}"
  then show "mirror_square b \<in> {0..63}"
    using mirror_square_range [of b] by simp
  show "mirror_square (mirror_square b) = b"
    by (rule mirror_square_involution)
qed

lemma sum_square_eval_mirror:
  "sum (square_eval (mirror_board pa)) {0..63} = - sum (square_eval pa) {0..63}"
proof -
  have "sum (square_eval (mirror_board pa)) {0..63}
          = sum (\<lambda>s. square_eval (mirror_board pa) (mirror_square s)) {0..63}"
    by (rule sum_board_mirror)
  also have "\<dots> = sum (\<lambda>s. - square_eval pa s) {0..63}"
    by (simp only: square_eval_mirror)
  also have "\<dots> = - sum (square_eval pa) {0..63}"
    by (rule sum_negf)
  finally show ?thesis .
qed

lemma sum_square_isolated_mirror:
  "sum (square_isolated (mirror_board pa) (\<not> c)) {0..63} = sum (square_isolated pa c) {0..63}"
proof -
  have "sum (square_isolated (mirror_board pa) (\<not> c)) {0..63}
          = sum (\<lambda>s. square_isolated (mirror_board pa) (\<not> c) (mirror_square s)) {0..63}"
    by (rule sum_board_mirror)
  also have "\<dots> = sum (square_isolated pa c) {0..63}"
    by (simp only: square_isolated_mirror)
  finally show ?thesis .
qed

lemma index_cases: "index xs i = Raises IndexError \<or> (\<exists>v. index xs i = Returns v)"
  by (simp add: index_def Let_def)

text \<open>
  Claim C8. For every placement, evaluating the colour-flipped mirror image (ranks
  reflected, every piece recoloured) yields exactly the negation of the original score:
  material, passed-pawn, isolated-pawn and king-shield terms all change sign. Where the
  original evaluation raises (a side with more than eight isolated pawns overruns the
  penalty table) the mirrored one raises as well, and conversely.
\<close>

theorem evaluate_mirror_antisymmetric:
  "evaluate (mirror_board pa) =
     (case evaluate pa of Returns v \<Rightarrow> Returns (- v) | Raises e \<Rightarrow> Raises e
      | OutOfFuel \<Rightarrow> OutOfFuel)"
proof -
  have w: "sum (square_isolated (mirror_board pa) True) {0..63}
             = sum (square_isolated pa False) {0..63}"
    using sum_square_isolated_mirror [of pa False] by simp
  have b: "sum (square_isolated (mirror_board pa) False) {0..63}
             = sum (square_isolated pa True) {0..63}"
    using sum_square_isolated_mirror [of pa True] by simp
  show ?thesis
    unfolding evaluate_sums w b sum_square_eval_mirror
    using index_cases [of isolated_pawn_penalty "sum (square_isolated pa True) {0..63}"]
      index_cases [of isolated_pawn_penalty "sum (square_isolated pa False) {0..63}"]
    by (auto simp: obind_def)
qed

lemma evaluate_example_placement: "evaluate example_placement = Returns 7"
  by code_simp

theorem evaluate_mirror_antisymmetric_witness:
  "evaluate example_placement = Returns 7 \<and>
   evaluate (mirror_board example_placement) = Returns (- 7)"
  using evaluate_mirror_antisymmetric [of example_placement] evaluate_example_placement
  by simp

section \<open>Properties of the move orderer\<close>

lemma insort_key_decorated_form:
  "insort_key (\<lambda>x. - fst x) (f a, a) (map (\<lambda>m. (f m, m)) ys)
     = map (\<lambda>m. (f m, m)) (insort_key (\<lambda>m. - f m) a ys)"
  by (induction ys) simp_all

lemma sort_key_decorated:
  "sort_key (\<lambda>x. - fst x) (map (\<lambda>m. (f m, m)) xs)
     = map (\<lambda>m. (f m, m)) (sort_key (\<lambda>m. - (f m :: int)) xs)"
  by (induction xs) (simp_all add: insort_key_decorated_form)

lemma order_moves_sort_key:
  "order_moves R st moves depth = sort_key (\<lambda>m. - order_score R st depth m) moves"
  by (simp add: order_moves_def Let_def sort_key_decorated comp_def)

lemma order_score_spec: "order_score R st depth m = spec_order_score R st depth m"
  by (auto simp: order_score_def spec_order_score_def score_move_mvv_lva_def
      generate_transposition_key_def Let_def split: option.splits)

lemma sorted_neg_sorted_wrt:
  "sorted (map (\<lambda>m. - (f m :: int)) xs) = sorted_wrt (\<lambda>a b. f a \<ge> f b) xs"
  by (induction xs) auto

text \<open>
  Claim C6. \<open>order_moves\<close> returns the given moves (as a multiset), in descending order
  of the score the specification describes (table move, capture value or flat 1000,
  promotion, killer, history, all additive); moves of equal score keep their original
  relative order; and the score the source computes is that score.
\<close>

theorem order_moves_sorted_stable:
  "mset (order_moves R st moves depth) = mset moves \<and>
   sorted_wrt (\<lambda>a b. spec_order_score R st depth a \<ge> spec_order_score R st depth b)
     (order_moves R st moves depth) \<and>
   (\<forall>k. filter (\<lambda>m. spec_order_score R st depth m = k) (order_moves R st moves depth)
        = filter (\<lambda>m. spec_order_score R st depth m = k) moves) \<and>
   (\<forall>m. order_score R st depth m = spec_order_score R st depth m)"
proof -
  let ?f = "spec_order_score R st depth"
  have o: "order_moves R st moves depth = sort_key (\<lambda>m. - ?f m) moves"
    by (simp add: order_moves_sort_key order_score_spec)
  have "sorted (map (\<lambda>m. - ?f m) (sort_key (\<lambda>m. - ?f m) moves))"
    by (rule sorted_sort_key)
  then have s: "sorted_wrt (\<lambda>a b. ?f a \<ge> ?f b) (sort_key (\<lambda>m. - ?f m) moves)"
    by (simp only: sorted_neg_sorted_wrt)
  have t: "filter (\<lambda>m. ?f m = k) (sort_key (\<lambda>m. - ?f m) moves) = filter (\<lambda>m. ?f m = k) moves" for k
    using sort_key_stable [of "\<lambda>m. - ?f m" "- k" moves] by simp
  show ?thesis
    unfolding o using s t by (simp add: order_score_spec)
qed

theorem order_moves_sorted_stable_witness:
  "order_moves example_rules (new_bot 0) [quiet_move, capture_move] 1 = [capture_move, quiet_move] \<and>
   order_score example_rules (new_bot 0) 1 capture_move = 999 \<and>
   order_score example_rules (new_bot 0) 1 quiet_move = 0"
proof -
  have a: "spec_order_score example_rules (new_bot 0) 1 capture_move = 999"
    by code_simp
  have b: "spec_order_score example_rules (new_bot 0) 1 quiet_move = 0"
    by code_simp
  have c: "order_moves example_rules (new_bot 0) [quiet_move, capture_move] 1
             = [capture_move, quiet_move]"
    by code_simp
  from order_moves_sorted_stable [of example_rules "new_bot 0" "[quiet_move, capture_move]" 1]
  have "\<forall>m. order_score example_rules (new_bot 0) 1 m = spec_order_score example_rules (new_bot 0) 1 m"
    by blast
  with a b c show ?thesis by simp
qed

section \<open>The search restores the board\<close>

lemma obind_Returns_iff:
  "(obind x f = Returns r) = (\<exists>v. x = Returns v \<and> f v = Returns r)"
  by (cases x) (simp_all add: obind_def)

lemma pop_push: "pop (push R m st) = Returns st"
  by (simp add: pop_def push_def)

lemma pop_Returns:
  "pop st = Returns st' \<Longrightarrow>
   \<exists>p ps. move_stack st = p # ps \<and> st' = st\<lparr>board := p, move_stack := ps\<rparr>"
  by (auto simp: pop_def split: list.splits)

lemma quiescence_moves_state:
  assumes rec: "\<And>a b s r s'. rec a b s = Returns (r, s') \<Longrightarrow> s' = s"
  shows "quiescence_moves rec R ms alpha beta st = Returns (r, st') \<Longrightarrow> st' = st"
proof (induction ms arbitrary: alpha st)
  case Nil
  then show ?case by simp
next
  case (Cons m ms)
  show ?case
  proof (cases "\<not> is_capture R (board st) m \<and> \<not> truthy (promotion m)")
    case True
    with Cons.prems have "quiescence_moves rec R ms alpha beta st = Returns (r, st')" by simp
    then show ?thesis by (rule Cons.IH)
  next
    case False
    with Cons.prems obtain s st1 st2 where
      c: "rec (- beta) (- alpha) (push R m st) = Returns (s, st1)" and
      p: "pop st1 = Returns st2" and
      k: "(if - s \<ge> beta then Returns (beta, st2)
           else quiescence_moves rec R ms (if - s > alpha then - s else alpha) beta st2)
          = Returns (r, st')"
      by (auto simp: obind_Returns_iff Let_def)
    from c have "st1 = push R m st" by (rule rec)
    with p have st2: "st2 = st" by (simp add: pop_push)
    show ?thesis
    proof (cases "- s \<ge> beta")
      case True
      with k st2 show ?thesis by simp
    next
      case False
      with k have "quiescence_moves rec R ms (if - s > alpha then - s else alpha) beta st2
                     = Returns (r, st')" by simp
      then have "st' = st2" by (rule Cons.IH)
      with st2 show ?thesis by simp
    qed
  qed
qed

lemma quiescence_Suc:
  "quiescence R (Suc fuel) alpha beta st =
     obind (evaluate (piece_at R (board st))) (\<lambda>v.
       if Fin v \<ge> beta then Returns (beta, st)
       else quiescence_moves (quiescence R fuel) R
              (sort_key (\<lambda>m. - score_move_mvv_lva R st m) (legal_moves R (board st)))
              (if alpha < Fin v then Fin v else alpha) beta st)"
  unfolding quiescence.simps quiescence_body_def Let_def ..

lemma quiescence_state:
  "quiescence R fuel alpha beta st = Returns (r, st') \<Longrightarrow> st' = st"
proof (induction fuel arbitrary: alpha beta st r st')
  case 0
  then show ?case by simp
next
  case (Suc fuel)
  from Suc.prems obtain v where
    q: "(if Fin v \<ge> beta then Returns (beta, st)
         else quiescence_moves (quiescence R fuel) R
                (sort_key (\<lambda>m. - score_move_mvv_lva R st m) (legal_moves R (board st)))
                (if alpha < Fin v then Fin v else alpha) beta st) = Returns (r, st')"
    unfolding quiescence_Suc by (auto simp: obind_Returns_iff)
  show ?case
  proof (cases "Fin v \<ge> beta")
    case True
    with q show ?thesis by simp
  next
    case False
    with q have "quiescence_moves (quiescence R fuel) R
                (sort_key (\<lambda>m. - score_move_mvv_lva R st m) (legal_moves R (board st)))
                (if alpha < Fin v then Fin v else alpha) beta st = Returns (r, st')" by simp
    then show ?thesis
      by (rule quiescence_moves_state [rotated]) (rule Suc.IH)
  qed
qed


lemma same_board_refl: "same_board st st"
  by (simp add: same_board_def)

lemma same_board_trans: "same_board a b \<Longrightarrow> same_board b c \<Longrightarrow> same_board a c"
  by (simp add: same_board_def)

lemma deadline_passed_board:
  "deadline_passed now start_time time_limit st = (expired, st0) \<Longrightarrow> same_board st st0"
  by (auto simp: deadline_passed_def same_board_def split: option.splits)

lemma tt_store_board: "same_board st (tt_store key depth e flag bm st)"
  by (simp add: tt_store_def same_board_def)

lemma pop_after_child:
  "same_board (push R m st0) st1 \<Longrightarrow> pop st1 = Returns st2 \<Longrightarrow> same_board st0 st2"
  by (auto simp: same_board_def push_def pop_def split: list.splits)

lemma record_cutoff_board: "same_board st (record_cutoff depth key m bm be st)"
  by (simp add: record_cutoff_def tt_store_def same_board_def Let_def)

lemma search_moves_Cons_Returns:
  assumes "search_moves child R now depth key is_maximizing start_time time_limit (m # ms)
             alpha beta best_move best_eval st = Returns res"
  obtains
    (expired) st0 where
      "deadline_passed now start_time time_limit st = (True, st0)"
      "res = (False, best_move, best_eval, st0)"
  | (aborted) st0 mv st1 st2 where
      "deadline_passed now start_time time_limit st = (False, st0)"
      "child (- beta) (- alpha) (\<not> is_maximizing) (push R m st0) = Returns ((mv, None), st1)"
      "pop st1 = Returns st2"
      "res = (False, best_move, best_eval, st2)"
  | (cutoff) st0 mv e st1 st2 where
      "deadline_passed now start_time time_limit st = (False, st0)"
      "child (- beta) (- alpha) (\<not> is_maximizing) (push R m st0) = Returns ((mv, Some e), st1)"
      "pop st1 = Returns st2"
      "(if - e > alpha then - e else alpha) \<ge> beta"
      "res = (True, (if - e > best_eval then Some m else best_move),
                    (if - e > best_eval then - e else best_eval),
                    record_cutoff depth key m (if - e > best_eval then Some m else best_move)
                      (if - e > best_eval then - e else best_eval) st2)"
  | (continue) st0 mv e st1 st2 where
      "deadline_passed now start_time time_limit st = (False, st0)"
      "child (- beta) (- alpha) (\<not> is_maximizing) (push R m st0) = Returns ((mv, Some e), st1)"
      "pop st1 = Returns st2"
      "\<not> (if - e > alpha then - e else alpha) \<ge> beta"
      "search_moves child R now depth key is_maximizing start_time time_limit ms
         (if - e > alpha then - e else alpha) beta
         (if - e > best_eval then Some m else best_move)
         (if - e > best_eval then - e else best_eval) st2 = Returns res"
proof (cases "deadline_passed now start_time time_limit st")
  case (Pair ex st0)
  show ?thesis
  proof (cases ex)
    case True
    with Pair assms show ?thesis by (auto intro: expired)
  next
    case False
    with Pair assms obtain mv eo st1 where
      c: "child (- beta) (- alpha) (\<not> is_maximizing) (push R m st0) = Returns ((mv, eo), st1)"
      by (auto simp: obind_Returns_iff)
    show ?thesis
    proof (cases eo)
      case None
      with Pair False assms c obtain st2 where
        "pop st1 = Returns st2" "res = (False, best_move, best_eval, st2)"
        by (auto simp: obind_Returns_iff)
      with Pair False c None show ?thesis
        by (intro aborted [of st0 mv st1 st2]) simp_all
    next
      case (Some e)
      with Pair False assms c obtain st2 where p: "pop st1 = Returns st2"
        by (auto simp: obind_Returns_iff Let_def)
      show ?thesis
      proof (cases "(if - e > alpha then - e else alpha) \<ge> beta")
        case True
        with Pair False assms c Some p show ?thesis
          by (intro cutoff [of st0 mv e st1 st2]) (simp_all add: obind_def Let_def)
      next
        case nb: False
        with Pair False assms c Some p show ?thesis
          by (intro continue [of st0 mv e st1 st2]) (simp_all add: obind_def Let_def)
      qed
    qed
  qed
qed

lemma search_moves_board:
  assumes child: "\<And>a b mx s r s'. child a b mx s = Returns (r, s') \<Longrightarrow> same_board s s'"
  shows "search_moves child R now depth key is_maximizing start_time time_limit ms
           alpha beta best_move best_eval st = Returns (ret, bm, be, st')
         \<Longrightarrow> same_board st st'"
proof (induction ms arbitrary: alpha best_move best_eval st)
  case Nil
  then show ?case by (simp add: same_board_refl)
next
  case (Cons m ms)
  from Cons.prems show ?case
  proof (cases rule: search_moves_Cons_Returns)
    case (expired st0)
    then show ?thesis by (auto dest: deadline_passed_board)
  next
    case (aborted st0 mv st1 st2)
    from aborted(2) have "same_board (push R m st0) st1" by (rule child)
    with aborted(3) have "same_board st0 st2" by (rule pop_after_child [rotated])
    with aborted(1,4) show ?thesis
      by (auto dest: deadline_passed_board intro: same_board_trans)
  next
    case (cutoff st0 mv e st1 st2)
    from cutoff(2) have "same_board (push R m st0) st1" by (rule child)
    with cutoff(3) have "same_board st0 st2" by (rule pop_after_child [rotated])
    with cutoff(1,5) show ?thesis
      by (auto dest!: deadline_passed_board intro: same_board_trans record_cutoff_board)
  next
    case (continue st0 mv e st1 st2)
    from continue(2) have "same_board (push R m st0) st1" by (rule child)
    with continue(3) have "same_board st0 st2" by (rule pop_after_child [rotated])
    moreover from continue(5) have "same_board st2 st'" by (rule Cons.IH)
    moreover from continue(1) have "same_board st st0" by (rule deadline_passed_board)
    ultimately show ?thesis by (blast intro: same_board_trans)
  qed
qed


lemma search_node_board:
  assumes child: "\<And>a b mx s r s'. child a b mx s = Returns (r, s') \<Longrightarrow> same_board s s'"
    and ret: "search_node child R now fuel depth alpha beta is_maximizing start_time time_limit st
                = Returns (r, st')"
  shows "same_board st st'"
proof (cases "deadline_passed now start_time time_limit st")
  case (Pair ex st0)
  then have sb0: "same_board st st0" by (rule deadline_passed_board)
  show ?thesis
  proof (cases ex)
    case True
    with Pair ret sb0 show ?thesis by (simp add: search_node_def)
  next
    case notex: False
    let ?key = "generate_transposition_key R st0"
    show ?thesis
    proof (cases "lookup (transposition_table st0) ?key (int depth) alpha beta")
      case (Some hit)
      with Pair notex ret sb0 show ?thesis
        by (auto simp: search_node_def Let_def split: prod.splits)
    next
      case None
      show ?thesis
      proof (cases "depth = 0 \<or> is_game_over R (board st0)")
        case True
        with Pair notex None ret obtain e st1 where
          l: "(if depth = 0 then quiescence R fuel alpha beta st0
               else obind (evaluate (piece_at R (board st0))) (\<lambda>v. Returns (Fin v, st0)))
              = Returns (e, st1)" and
          r: "st' = tt_store ?key (int depth) e ''EXACT'' None st1"
          by (auto simp: search_node_def Let_def obind_Returns_iff)
        from l have "st1 = st0"
          by (auto simp: obind_Returns_iff dest: quiescence_state split: if_splits)
        with r sb0 show ?thesis
          by (auto intro: same_board_trans tt_store_board)
      next
        case False
        with Pair notex None ret have
          "\<exists>returned bm be st1.
             search_moves child R now depth ?key is_maximizing start_time time_limit
                (order_moves R st0 (legal_moves R (board st0)) depth) alpha beta None NegInf st0
              = Returns (returned, bm, be, st1) \<and>
             (st' = st1 \<or> (\<exists>stored. st' = tt_store ?key (int depth) stored ''EXACT'' bm st1))"
          by (fastforce simp: search_node_def Let_def obind_Returns_iff split: if_splits)
        then obtain returned bm be st1 where
          l: "search_moves child R now depth ?key is_maximizing start_time time_limit
                (order_moves R st0 (legal_moves R (board st0)) depth) alpha beta None NegInf st0
              = Returns (returned, bm, be, st1)" and
          r: "st' = st1 \<or> (\<exists>stored. st' = tt_store ?key (int depth) stored ''EXACT'' bm st1)"
          by blast
        have "same_board st0 st1"
        proof (rule search_moves_board [where child = child])
          show "\<And>a b mx s r s'. child a b mx s = Returns (r, s') \<Longrightarrow> same_board s s'"
            by (rule child)
          show "search_moves child R now depth ?key is_maximizing start_time time_limit
                  (order_moves R st0 (legal_moves R (board st0)) depth) alpha beta None NegInf st0
                = Returns (returned, bm, be, st1)"
            by (rule l)
        qed
        with r sb0 show ?thesis
          by (auto intro: same_board_trans tt_store_board)
      qed
    qed
  qed
qed

lemma search_board:
  "search R now fuel depth alpha beta is_maximizing start_time time_limit st = Returns (r, st')
   \<Longrightarrow> same_board st st'"
proof (induction depth arbitrary: alpha beta is_maximizing st r st')
  case 0
  then show ?case
    by (simp only: search.simps) (erule search_node_board [rotated], simp)
next
  case (Suc d)
  from Suc.prems show ?case
    by (simp only: search.simps) (erule search_node_board [rotated], erule Suc.IH)
qed

text \<open>
  Claim C9. Whenever a call of \<open>search\<close> or of \<open>quiescence\<close> returns, on the
  deadline paths as on every other, each move it pushed has been popped again: the
  position and the undo stack, and with them the position key, are those of the call's
  entry.
\<close>

theorem search_restores_board:
  "(search R now fuel depth alpha beta is_maximizing start_time time_limit st = Returns (r, st')
      \<longrightarrow> board st' = board st \<and> move_stack st' = move_stack st \<and>
          generate_transposition_key R st' = generate_transposition_key R st) \<and>
   (quiescence R fuel alpha beta st = Returns (s, st'')
      \<longrightarrow> board st'' = board st \<and> move_stack st'' = move_stack st \<and>
          generate_transposition_key R st'' = generate_transposition_key R st)"
  using search_board [of R now fuel depth alpha beta is_maximizing start_time time_limit st r st']
    quiescence_state [of R fuel alpha beta st s st'']
  by (auto simp: same_board_def generate_transposition_key_def)

theorem search_restores_board_witness:
  "(\<exists>r st'. search example_rules ticking 5 1 NegInf PosInf True (Some 0) (Some 2) (new_bot 0)
               = Returns (r, st') \<and> board st' = 0 \<and> move_stack st' = []) \<and>
   (\<exists>s st''. quiescence example_rules 5 NegInf PosInf (new_bot 0) = Returns (s, st'') \<and>
               board st'' = 0 \<and> move_stack st'' = [])"
proof -
  have "case search example_rules ticking 5 1 NegInf PosInf True (Some 0) (Some 2) (new_bot 0) of
          Returns x \<Rightarrow> True | _ \<Rightarrow> False"
    by code_simp
  then obtain r st' where
    a: "search example_rules ticking 5 1 NegInf PosInf True (Some 0) (Some 2) (new_bot 0)
          = Returns (r, st')"
    by (auto split: outcome.splits)
  have "case quiescence example_rules 5 NegInf PosInf (new_bot 0) of
          Returns x \<Rightarrow> True | _ \<Rightarrow> False"
    by code_simp
  then obtain s st'' where
    b: "quiescence example_rules 5 NegInf PosInf (new_bot 0) = Returns (s, st'')"
    by (auto split: outcome.splits)
  from a b search_restores_board [of example_rules ticking 5 1 NegInf PosInf True "Some 0" "Some 2"
      "new_bot 0" r st' s st'']
  show ?thesis by (simp add: new_bot_def)
qed

section \<open>Properties of the quiescence search\<close>

lemma noisy_only_simps:
  "is_capture (noisy_only R) = is_capture R"
  "apply_move (noisy_only R) = apply_move R"
  "piece_at (noisy_only R) = piece_at R"
  "legal_moves (noisy_only R) p = filter (noisy R p) (legal_moves R p)"
  "push (noisy_only R) = push R"
  "score_move_mvv_lva (noisy_only R) = score_move_mvv_lva R"
  by (simp_all add: noisy_only_def push_def score_move_mvv_lva_def fun_eq_iff)

lemma quiescence_moves_quiet:
  "\<forall>m\<in>set ms. \<not> noisy R (board st) m \<Longrightarrow> quiescence_moves rec R ms alpha beta st = Returns (alpha, st)"
  by (induction ms) (simp_all add: noisy_def)

lemma quiescence_moves_rules_cong:
  "quiescence_moves rec (noisy_only R) ms alpha beta st = quiescence_moves rec R ms alpha beta st"
proof (induction ms arbitrary: alpha st)
  case Nil
  show ?case by simp
next
  case (Cons m ms)
  show ?case
    by (simp add: noisy_only_simps Cons.IH cong: if_cong)
qed

lemma quiescence_moves_filter:
  assumes rec: "\<And>a b s r s'. rec a b s = Returns (r, s') \<Longrightarrow> s' = s"
  shows "quiescence_moves rec R (filter (noisy R (board st)) ms) alpha beta st
           = quiescence_moves rec R ms alpha beta st"
proof (induction ms arbitrary: alpha)
  case Nil
  show ?case by simp
next
  case (Cons m ms)
  show ?case
  proof (cases "noisy R (board st) m")
    case False
    then have q: "\<not> is_capture R (board st) m \<and> \<not> truthy (promotion m)"
      by (simp add: noisy_def)
    from False q show ?thesis by (simp add: Cons.IH)
  next
    case True
    then have n: "\<not> (\<not> is_capture R (board st) m \<and> \<not> truthy (promotion m))"
      by (simp add: noisy_def)
    show ?thesis
    proof (cases "rec (- beta) (- alpha) (push R m st)")
      case (Returns x)
      obtain s st1 where x: "x = (s, st1)" by (cases x)
      with Returns have "st1 = push R m st" by (auto dest: rec)
      with Returns x True n show ?thesis
        by (auto simp add: obind_def pop_push Cons.IH Let_def)
    next
      case (Raises e)
      with True n show ?thesis by (auto simp add: obind_def)
    next
      case OutOfFuel
      with True n show ?thesis by (auto simp add: obind_def)
    qed
  qed
qed

lemma quiescence_noisy_only:
  "quiescence (noisy_only R) fuel alpha beta st = quiescence R fuel alpha beta st"
proof (induction fuel arbitrary: alpha beta st)
  case 0
  show ?case by simp
next
  case (Suc fuel)
  have r: "quiescence (noisy_only R) fuel = quiescence R fuel"
    by (intro ext) (rule Suc.IH)
  have f: "quiescence_moves (quiescence R fuel) R
             (sort_key (\<lambda>m. - score_move_mvv_lva R st m) (filter (noisy R (board st)) (legal_moves R (board st))))
             a beta st
           = quiescence_moves (quiescence R fuel) R
             (sort_key (\<lambda>m. - score_move_mvv_lva R st m) (legal_moves R (board st))) a beta st" for a
  proof -
    have "sort_key (\<lambda>m. - score_move_mvv_lva R st m) (filter (noisy R (board st)) (legal_moves R (board st)))
            = filter (noisy R (board st)) (sort_key (\<lambda>m. - score_move_mvv_lva R st m) (legal_moves R (board st)))"
      by (rule filter_sort [symmetric])
    then show ?thesis
      by (simp only: quiescence_moves_filter [where rec = "quiescence R fuel", OF quiescence_state])
  qed
  show ?case
    unfolding quiescence_Suc noisy_only_simps r quiescence_moves_rules_cong f ..
qed

lemma quiescence_moves_bounds:
  "quiescence_moves rec R ms alpha beta st = Returns (s, st') \<Longrightarrow>
   (alpha \<le> s \<or> s = beta) \<and> (alpha \<le> beta \<longrightarrow> s \<le> beta)"
proof (induction ms arbitrary: alpha st)
  case Nil
  then show ?case by simp
next
  case (Cons m ms)
  show ?case
  proof (cases "\<not> is_capture R (board st) m \<and> \<not> truthy (promotion m)")
    case True
    with Cons.prems have "quiescence_moves rec R ms alpha beta st = Returns (s, st')" by simp
    then show ?thesis by (rule Cons.IH)
  next
    case False
    with Cons.prems obtain c st1 st2 where
      k: "(if - c \<ge> beta then Returns (beta, st2)
           else quiescence_moves rec R ms (if - c > alpha then - c else alpha) beta st2)
          = Returns (s, st')"
      by (auto simp: obind_Returns_iff Let_def)
    show ?thesis
    proof (cases "- c \<ge> beta")
      case True
      with k show ?thesis by simp
    next
      case nb: False
      with k have "quiescence_moves rec R ms (if - c > alpha then - c else alpha) beta st2
                     = Returns (s, st')" by simp
      then have "((if - c > alpha then - c else alpha) \<le> s \<or> s = beta) \<and>
                 ((if - c > alpha then - c else alpha) \<le> beta \<longrightarrow> s \<le> beta)"
        by (rule Cons.IH)
      with nb show ?thesis by (auto split: if_splits)
    qed
  qed
qed

text \<open>
  Claim C5. Let the stand-pat evaluation of the position be \<open>v\<close>. If \<open>v\<close> meets or exceeds
  \<open>beta\<close>, quiescence returns \<open>beta\<close> and leaves the bot unchanged, whatever the recursive
  call would do (so no move is expanded; in particular one unit of fuel suffices). Otherwise,
  for \<open>alpha < beta\<close>, every returned score lies between the larger of \<open>alpha\<close> and the
  stand-pat value and \<open>beta\<close>, and when no legal move is a capture or a promotion the result
  is exactly the larger of \<open>alpha\<close> and the stand-pat value. In every case the call is
  unaffected by the quiet moves: it equals the call on the rules engine that generates only
  captures and promotions.
\<close>

theorem quiescence_stand_pat:
  "evaluate (piece_at R (board st)) = Returns v \<longrightarrow>
     (Fin v \<ge> beta \<longrightarrow>
        quiescence R (Suc fuel) alpha beta st = Returns (beta, st) \<and>
        (\<forall>rec. quiescence_body rec R alpha beta st = Returns (beta, st))) \<and>
     (Fin v < beta \<longrightarrow>
        (\<forall>s st'. alpha < beta \<longrightarrow> quiescence R (Suc fuel) alpha beta st = Returns (s, st') \<longrightarrow>
                  Fin v \<le> s \<and> alpha \<le> s \<and> s \<le> beta) \<and>
        ((\<forall>m\<in>set (legal_moves R (board st)). \<not> is_capture R (board st) m \<and> \<not> truthy (promotion m)) \<longrightarrow>
           quiescence R (Suc fuel) alpha beta st = Returns (max alpha (Fin v), st))) \<and>
     quiescence R (Suc fuel) alpha beta st = quiescence (noisy_only R) (Suc fuel) alpha beta st"
proof (intro impI conjI allI)
  assume e: "evaluate (piece_at R (board st)) = Returns v"
  show "quiescence R (Suc fuel) alpha beta st = quiescence (noisy_only R) (Suc fuel) alpha beta st"
    by (rule quiescence_noisy_only [symmetric])
  {
    assume "Fin v \<ge> beta"
    with e show "quiescence R (Suc fuel) alpha beta st = Returns (beta, st)"
      unfolding quiescence_Suc by (simp add: obind_def)
  }
  {
    fix rec
    assume "Fin v \<ge> beta"
    with e show "quiescence_body rec R alpha beta st = Returns (beta, st)"
      unfolding quiescence_body_def by (simp add: obind_def)
  }
  {
    fix s st'
    assume lt: "Fin v < beta" and ab: "alpha < beta"
      and q: "quiescence R (Suc fuel) alpha beta st = Returns (s, st')"
    from lt have nb: "(beta \<le> Fin v) = False" by auto
    from q have
      "quiescence_moves (quiescence R fuel) R
         (sort_key (\<lambda>m. - score_move_mvv_lva R st m) (legal_moves R (board st)))
         (if alpha < Fin v then Fin v else alpha) beta st = Returns (s, st')"
      unfolding quiescence_Suc e by (simp only: obind_def outcome.case nb if_False)
    from quiescence_moves_bounds [OF this] lt ab
    have b: "((if alpha < Fin v then Fin v else alpha) \<le> s \<or> s = beta) \<and> s \<le> beta"
      by (auto split: if_splits)
    from b lt ab show "Fin v \<le> s" by (auto split: if_splits)
    from b lt ab show "alpha \<le> s" by (auto split: if_splits)
    from b show "s \<le> beta" by simp
  }
  {
    assume lt: "Fin v < beta"
      and quiet: "\<forall>m\<in>set (legal_moves R (board st)). \<not> is_capture R (board st) m \<and> \<not> truthy (promotion m)"
    then have qm: "\<forall>m\<in>set (sort_key (\<lambda>m. - score_move_mvv_lva R st m) (legal_moves R (board st))).
                 \<not> noisy R (board st) m"
      by (simp add: noisy_def)
    from lt have nb: "(beta \<le> Fin v) = False" by auto
    have "quiescence R (Suc fuel) alpha beta st = Returns (if alpha < Fin v then Fin v else alpha, st)"
      unfolding quiescence_Suc e
      by (simp only: obind_def outcome.case nb if_False quiescence_moves_quiet [OF qm])
    then show "quiescence R (Suc fuel) alpha beta st = Returns (max alpha (Fin v), st)"
      by (auto simp add: max_def)
  }
qed


theorem quiescence_stand_pat_witness:
  "quiescence example_rules 1 (Fin 0) (Fin 10) (new_bot 2) = Returns (Fin 10, new_bot 2) \<and>
   quiescence example_rules 1 (Fin 0) (Fin 50) (new_bot 2) = Returns (Fin 21, new_bot 2) \<and>
   (\<exists>s st'. quiescence example_rules (Suc 1) (Fin (- 5)) (Fin 50) (new_bot 0) = Returns (s, st') \<and>
             Fin 0 \<le> s \<and> Fin (- 5) \<le> s \<and> s \<le> Fin 50)"
proof -
  have e2: "evaluate (piece_at example_rules (board (new_bot (2::nat)))) = Returns 21"
    by code_simp
  have e0: "evaluate (piece_at example_rules (board (new_bot (0::nat)))) = Returns 0"
    by code_simp
  have l2: "legal_moves example_rules (board (new_bot (2::nat))) = []"
    by (simp add: example_rules_def new_bot_def)
  have "case quiescence example_rules (Suc 1) (Fin (- 5)) (Fin 50) (new_bot 0) of
          Returns x \<Rightarrow> True | _ \<Rightarrow> False"
    by code_simp
  then obtain s st' where
    q: "quiescence example_rules (Suc 1) (Fin (- 5)) (Fin 50) (new_bot 0) = Returns (s, st')"
    by (auto split: outcome.splits)
  from quiescence_stand_pat [of example_rules "new_bot 2" 21 "Fin 10" 0 "Fin 0"] e2
  have a: "quiescence example_rules 1 (Fin 0) (Fin 10) (new_bot 2) = Returns (Fin 10, new_bot 2)"
    by (simp add: less_score_def del: quiescence.simps)
  from quiescence_stand_pat [of example_rules "new_bot 2" 21 "Fin 50" 0 "Fin 0"] e2 l2
  have b: "quiescence example_rules 1 (Fin 0) (Fin 50) (new_bot 2) = Returns (Fin 21, new_bot 2)"
    by (simp add: max_def less_score_def del: quiescence.simps)
  from quiescence_stand_pat [of example_rules "new_bot 0" 0 "Fin 50" 1 "Fin (- 5)"] e0 q
  have c: "Fin 0 \<le> s \<and> Fin (- 5) \<le> s \<and> s \<le> Fin 50"
    by (simp add: less_score_def del: quiescence.simps)
  from a b c q show ?thesis by blast
qed

lemma evaluate_not_OutOfFuel: "evaluate pa \<noteq> OutOfFuel"
proof -
  obtain e w b where f: "fold (evaluate_step pa) (piece_map pa) (0, 0, 0) = (e, w, b)"
    by (cases "fold (evaluate_step pa) (piece_map pa) (0, 0, 0)")
  from index_cases [of isolated_pawn_penalty w] index_cases [of isolated_pawn_penalty b]
  show ?thesis
    unfolding evaluate_def f by (auto simp: obind_def)
qed

lemma quiescence_moves_not_OutOfFuel:
  assumes pres: "\<And>a b s r s'. rec a b s = Returns (r, s') \<Longrightarrow> s' = s"
    and ok: "\<And>m a b. m \<in> set ms \<Longrightarrow> noisy R (board st) m \<Longrightarrow> rec a b (push R m st) \<noteq> OutOfFuel"
  shows "quiescence_moves rec R ms alpha beta st \<noteq> OutOfFuel"
  using ok
proof (induction ms arbitrary: alpha)
  case Nil
  show ?case by simp
next
  case (Cons m ms)
  have ih: "quiescence_moves rec R ms a beta st \<noteq> OutOfFuel" for a
    by (rule Cons.IH) (rule Cons.prems, simp_all)
  show ?case
  proof (cases "noisy R (board st) m")
    case False
    then have q: "\<not> is_capture R (board st) m \<and> \<not> truthy (promotion m)"
      by (simp add: noisy_def)
    then show ?thesis by (simp add: ih)
  next
    case True
    then have n: "is_capture R (board st) m \<or> truthy (promotion m)"
      by (simp add: noisy_def)
    have r: "rec (- beta) (- alpha) (push R m st) \<noteq> OutOfFuel"
      by (rule Cons.prems) (simp_all add: True)
    show ?thesis
    proof (cases "rec (- beta) (- alpha) (push R m st)")
      case (Returns x)
      obtain s st1 where x: "x = (s, st1)" by (cases x)
      with Returns have "st1 = push R m st" by (auto dest: pres)
      with Returns x n show ?thesis
        by (auto simp add: obind_def pop_push ih Let_def)
    next
      case (Raises e)
      with n show ?thesis by (auto simp add: obind_def)
    next
      case OutOfFuel
      with r show ?thesis by simp
    qed
  qed
qed

lemma quiescence_bound_decreases:
  assumes "captures_and_promotions_shrink R" "m \<in> set (legal_moves R p)" "noisy R p m"
  shows "quiescence_bound R (apply_move R p m) < quiescence_bound R p"
  using assms unfolding captures_and_promotions_shrink_def quiescence_bound_def noisy_def
  by fastforce

lemma quiescence_not_OutOfFuel:
  assumes R: "captures_and_promotions_shrink R"
  shows "quiescence_bound R (board st) < fuel \<Longrightarrow> quiescence R fuel alpha beta st \<noteq> OutOfFuel"
proof (induction fuel arbitrary: alpha beta st)
  case 0
  then show ?case by simp
next
  case (Suc fuel)
  have loop: "quiescence_moves (quiescence R fuel) R
                (sort_key (\<lambda>m. - score_move_mvv_lva R st m) (legal_moves R (board st)))
                a beta st \<noteq> OutOfFuel" for a
  proof (rule quiescence_moves_not_OutOfFuel)
    fix a b s r s'
    assume "quiescence R fuel a b s = Returns (r, s')"
    then show "s' = s" by (rule quiescence_state)
  next
    fix m a b
    assume m: "m \<in> set (sort_key (\<lambda>m. - score_move_mvv_lva R st m) (legal_moves R (board st)))"
      and n: "noisy R (board st) m"
    from m have "m \<in> set (legal_moves R (board st))" by simp
    from quiescence_bound_decreases [OF R this n] Suc.prems
    have "quiescence_bound R (board (push R m st)) < fuel"
      by (simp add: push_def)
    then show "quiescence R fuel a b (push R m st) \<noteq> OutOfFuel"
      by (rule Suc.IH)
  qed
  show ?case
  proof (cases "evaluate (piece_at R (board st))")
    case (Returns v)
    then show ?thesis
      unfolding quiescence_Suc by (simp add: obind_def loop)
  next
    case (Raises e)
    then show ?thesis
      unfolding quiescence_Suc by (simp add: obind_def)
  next
    case OutOfFuel
    then show ?thesis by (simp add: evaluate_not_OutOfFuel)
  qed
qed

text \<open>More fuel never changes an outcome that was reached.\<close>

lemma quiescence_moves_mono:
  assumes rec: "\<And>a b s. rec a b s \<noteq> OutOfFuel \<Longrightarrow> rec' a b s = rec a b s"
  shows "quiescence_moves rec R ms alpha beta st \<noteq> OutOfFuel \<Longrightarrow>
         quiescence_moves rec' R ms alpha beta st = quiescence_moves rec R ms alpha beta st"
proof (induction ms arbitrary: alpha st)
  case Nil
  show ?case by simp
next
  case (Cons m ms)
  show ?case
  proof (cases "\<not> is_capture R (board st) m \<and> \<not> truthy (promotion m)")
    case True
    with Cons.prems have "quiescence_moves rec R ms alpha beta st \<noteq> OutOfFuel" by simp
    from Cons.IH [OF this] True show ?thesis by simp
  next
    case False
    then have n: "is_capture R (board st) m \<or> truthy (promotion m)" by simp
    show ?thesis
    proof (cases "rec (- beta) (- alpha) (push R m st)")
      case (Returns x)
      then have r': "rec' (- beta) (- alpha) (push R m st) = Returns x"
        by (simp add: rec)
      obtain s st1 where x: "x = (s, st1)" by (cases x)
      show ?thesis
      proof (cases "pop st1")
        case st2: (Returns st2)
        from Cons.prems Returns x st2 n
        have "\<not> beta \<le> - s \<Longrightarrow>
              quiescence_moves rec R ms (if alpha < - s then - s else alpha) beta st2 \<noteq> OutOfFuel"
          by (auto simp add: obind_def Let_def split: if_splits)
        from Cons.IH [OF this] Returns r' x st2 n show ?thesis
          by (auto simp add: obind_def Let_def)
      next
        case (Raises e)
        with Returns r' x n show ?thesis by (auto simp add: obind_def)
      next
        case OutOfFuel
        with Returns r' x n show ?thesis by (auto simp add: obind_def)
      qed
    next
      case (Raises e)
      then have "rec' (- beta) (- alpha) (push R m st) = Raises e" by (simp add: rec)
      with Raises n show ?thesis by (auto simp add: obind_def)
    next
      case OutOfFuel
      with Cons.prems n show ?thesis by (auto simp add: obind_def)
    qed
  qed
qed

lemma quiescence_mono_Suc:
  "quiescence R fuel alpha beta st \<noteq> OutOfFuel \<Longrightarrow>
   quiescence R (Suc fuel) alpha beta st = quiescence R fuel alpha beta st"
proof (induction fuel arbitrary: alpha beta st)
  case 0
  then show ?case by simp
next
  case (Suc fuel)
  show ?case
  proof (cases "evaluate (piece_at R (board st))")
    case (Returns v)
    show ?thesis
    proof (cases "beta \<le> Fin v")
      case True
      with Returns show ?thesis
        unfolding quiescence_Suc [of R "Suc fuel"] quiescence_Suc [of R fuel]
        by (simp add: obind_def)
    next
      case False
      then have nb: "(beta \<le> Fin v) = False" by simp
      from Suc.prems have
        "quiescence_moves (quiescence R fuel) R
           (sort_key (\<lambda>m. - score_move_mvv_lva R st m) (legal_moves R (board st)))
           (if alpha < Fin v then Fin v else alpha) beta st \<noteq> OutOfFuel"
        unfolding quiescence_Suc [of R fuel] Returns
        by (simp only: obind_def outcome.case nb if_False simp_thms)
      then have
        "quiescence_moves (quiescence R (Suc fuel)) R
           (sort_key (\<lambda>m. - score_move_mvv_lva R st m) (legal_moves R (board st)))
           (if alpha < Fin v then Fin v else alpha) beta st
         = quiescence_moves (quiescence R fuel) R
           (sort_key (\<lambda>m. - score_move_mvv_lva R st m) (legal_moves R (board st)))
           (if alpha < Fin v then Fin v else alpha) beta st"
        by (rule quiescence_moves_mono [rotated]) (rule Suc.IH)
      then show ?thesis
        unfolding quiescence_Suc [of R "Suc fuel"] quiescence_Suc [of R fuel] Returns
        by (simp only: obind_def outcome.case nb if_False simp_thms)
    qed
  next
    case (Raises e)
    then show ?thesis
      unfolding quiescence_Suc [of R "Suc fuel"] quiescence_Suc [of R fuel]
      by (simp add: obind_def)
  next
    case OutOfFuel
    then show ?thesis by (simp add: evaluate_not_OutOfFuel)
  qed
qed

lemma quiescence_mono:
  "quiescence R fuel alpha beta st \<noteq> OutOfFuel \<Longrightarrow>
   quiescence R (fuel + k) alpha beta st = quiescence R fuel alpha beta st"
proof (induction k)
  case 0
  show ?case by simp
next
  case (Suc k)
  then have "quiescence R (fuel + k) alpha beta st \<noteq> OutOfFuel" by simp
  from quiescence_mono_Suc [OF this] Suc show ?case by simp
qed

text \<open>
  Claim C10. Under the rules of chess (a capture decreases the piece count, a promotion
  decreases the pawn count), the recursion of quiescence is bounded by the number of pieces
  plus the number of pawns on the board: with any amount of fuel above that bound the call
  does not run out of fuel, and its outcome is the one obtained with the bound itself, so the
  outcome does not depend on the fuel.
\<close>

theorem quiescence_terminates:
  assumes "captures_and_promotions_shrink R"
    and "quiescence_bound R (board st) < fuel"
  shows "quiescence R fuel alpha beta st \<noteq> OutOfFuel \<and>
         quiescence R fuel alpha beta st = quiescence R (Suc (quiescence_bound R (board st))) alpha beta st"
proof -
  have a: "quiescence R (Suc (quiescence_bound R (board st))) alpha beta st \<noteq> OutOfFuel"
    by (rule quiescence_not_OutOfFuel [OF assms(1)]) simp
  from assms(2) obtain k where k: "fuel = Suc (quiescence_bound R (board st)) + k"
    by (metis Suc_leI le_Suc_ex)
  from quiescence_mono [OF a, of k] k a show ?thesis by simp
qed

lemma example_counts:
  "piece_count (example_piece_at 0) = 4" "pawn_count (example_piece_at 0) = 2"
  "piece_count (example_piece_at 1) = 4" "pawn_count (example_piece_at 1) = 2"
  "piece_count (example_piece_at 2) = 3" "pawn_count (example_piece_at 2) = 1"
  "piece_count (example_piece_at 3) = 3" "pawn_count (example_piece_at 3) = 1"
  by code_simp+

lemma example_counts_Suc:
  "piece_count (example_piece_at (Suc 0)) = 4" "pawn_count (example_piece_at (Suc 0)) = 2"
  using example_counts(3,4) by simp_all

lemma example_rules_shrink: "captures_and_promotions_shrink example_rules"
  unfolding captures_and_promotions_shrink_def
  by (auto simp add: example_rules_def example_counts example_counts_Suc quiet_move_def capture_move_def
        recapture_move_def truthy_def split: if_splits)

theorem quiescence_terminates_witness:
  "quiescence example_rules 7 NegInf PosInf (new_bot 0) \<noteq> OutOfFuel \<and>
   (case quiescence example_rules 7 NegInf PosInf (new_bot 0) of
      Returns (s, st') \<Rightarrow> s = Fin 0 | _ \<Rightarrow> False)"
proof -
  have b: "quiescence_bound example_rules (board (new_bot 0)) = 6"
    by (simp add: quiescence_bound_def new_bot_def example_rules_def example_counts)
  have r: "case quiescence example_rules (Suc 6) NegInf PosInf (new_bot 0) of
             Returns (s, st') \<Rightarrow> s = Fin 0 | _ \<Rightarrow> False"
    by code_simp
  from quiescence_terminates [OF example_rules_shrink, of "new_bot 0" 7 NegInf PosInf] b r
  show ?thesis by simp
qed

end
